theory Spec2Isabelle
  imports Main "HOL-Library.Sublist"
begin

section \<open>JavaScript strings\<close>

text \<open>
  A JavaScript string is a sequence of UTF-16 code units, and \<^verbatim>\<open>length\<close> counts code
  units. A code unit is modelled by its number; \<open>ascii\<close> turns an ASCII literal into
  code units and \<open>ch\<close> a single character.
\<close>

type_synonym jsstring = "nat list"

definition ascii :: "string \<Rightarrow> jsstring" where
  "ascii s = map of_char s"

abbreviation ch :: "char \<Rightarrow> nat" where
  "ch c \<equiv> of_char c"

text \<open>
  The code units that \<^verbatim>\<open>\s\<close> of a regular expression matches and that
  \<^verbatim>\<open>String.prototype.trim\<close> strips: WhiteSpace and LineTerminator of ECMAScript
  (TAB, LF, VT, FF, CR, SP, NBSP, U+1680, U+2000 to U+200A, U+2028, U+2029, U+202F,
  U+205F, U+3000, U+FEFF).
\<close>

definition is_js_space :: "nat \<Rightarrow> bool" where
  "is_js_space c \<longleftrightarrow>
     (9 \<le> c \<and> c \<le> 13) \<or> c = 32 \<or> c = 160 \<or> c = 5760 \<or> (8192 \<le> c \<and> c \<le> 8202) \<or>
     c = 8232 \<or> c = 8233 \<or> c = 8239 \<or> c = 8287 \<or> c = 12288 \<or> c = 65279"

text \<open>\<^verbatim>\<open>s.trim()\<close>\<close>

definition trim :: "jsstring \<Rightarrow> jsstring" where
  "trim s = rev (dropWhile is_js_space (rev (dropWhile is_js_space s)))"

text \<open>\<^verbatim>\<open>s.startsWith(p)\<close> and \<^verbatim>\<open>s.includes(p)\<close>\<close>

fun starts_with :: "jsstring \<Rightarrow> jsstring \<Rightarrow> bool" where
  "starts_with s [] = True"
| "starts_with [] (p # ps) = False"
| "starts_with (c # cs) (p # ps) = (c = p \<and> starts_with cs ps)"

fun str_includes :: "jsstring \<Rightarrow> jsstring \<Rightarrow> bool" where
  "str_includes [] p = starts_with [] p"
| "str_includes (c # cs) p = (starts_with (c # cs) p \<or> str_includes cs p)"

text \<open>\<^verbatim>\<open>xs.join(sep)\<close> on an array of strings\<close>

fun join :: "jsstring \<Rightarrow> jsstring list \<Rightarrow> jsstring" where
  "join sep [] = []"
| "join sep [x] = x"
| "join sep (x # y # ys) = x @ sep @ join sep (y # ys)"

text \<open>The decimal digits \<^verbatim>\<open>[0-9]\<close>, which is also \<^verbatim>\<open>\d\<close> of a regular expression.\<close>

definition is_digit :: "nat \<Rightarrow> bool" where
  "is_digit c \<longleftrightarrow> ch CHR ''0'' \<le> c \<and> c \<le> ch CHR ''9''"

section \<open>Text validation (services/documentParser.ts)\<close>

text \<open>
  \<^verbatim>\<open>validateText\<close> returns \<^verbatim>\<open>{ valid, error? }\<close>. The four error messages of the
  source are the constructors of \<open>text_error\<close>, in the order of the source: no usable
  content, empty after trimming, shorter than 20, longer than 50000. The parameter is
  typed \<^verbatim>\<open>string\<close>, so \<^verbatim>\<open>!text\<close> holds for the empty string only.
\<close>

datatype text_error = NoContent | EmptyText | TooShort | TooLong

record validation =
  valid :: bool
  error :: "text_error option"

definition validateText :: "jsstring \<Rightarrow> validation" where
  "validateText tx =
     (if tx = [] then \<lparr>valid = False, error = Some NoContent\<rparr>
      else let trimmedText = trim tx in
        if length trimmedText = 0 then \<lparr>valid = False, error = Some EmptyText\<rparr>
        else if length trimmedText < 20 then \<lparr>valid = False, error = Some TooShort\<rparr>
        else if length trimmedText > 50000 then \<lparr>valid = False, error = Some TooLong\<rparr>
        else \<lparr>valid = True, error = None\<rparr>)"

section \<open>JSON values and \<^verbatim>\<open>JSON.parse\<close>\<close>

text \<open>
  What \<^verbatim>\<open>JSON.parse\<close> returns. A number is kept as the numeric literal of the text:
  its value is an IEEE double, which is not modelled (see \<open>number_ops\<close> below). An
  object is the list of its members in the order of the text; a later member with the
  same key overrides an earlier one when a property is read (\<open>get_prop\<close>).
\<close>

datatype json =
    JNull
  | JBool bool
  | JNum jsstring
  | JStr jsstring
  | JArr "json list"
  | JObj "(jsstring \<times> json) list"

text \<open>
  The parser follows the JSON grammar of ECMA-404, which \<^verbatim>\<open>JSON.parse\<close> implements:
  white space is TAB, LF, CR and SP; a string has no raw code unit below U+0020 and the
  escapes \<^verbatim>\<open>\" \\ \/ \b \f \n \r \t \uXXXX\<close>; a number is
  \<^verbatim>\<open>-?(0|[1-9][0-9]*)(\.[0-9]+)?([eE][+-]?[0-9]+)?\<close>. Every parsing function returns
  the value read and the rest of the input, or \<open>None\<close> where \<^verbatim>\<open>JSON.parse\<close> throws a
  SyntaxError.
\<close>

definition json_ws :: "nat \<Rightarrow> bool" where
  "json_ws c \<longleftrightarrow> c = 9 \<or> c = 10 \<or> c = 13 \<or> c = 32"

definition skip_ws :: "jsstring \<Rightarrow> jsstring" where
  "skip_ws s = dropWhile json_ws s"

definition hex_digit :: "nat \<Rightarrow> nat option" where
  "hex_digit c =
     (if ch CHR ''0'' \<le> c \<and> c \<le> ch CHR ''9'' then Some (c - ch CHR ''0'')
      else if ch CHR ''a'' \<le> c \<and> c \<le> ch CHR ''f'' then Some (c - ch CHR ''a'' + 10)
      else if ch CHR ''A'' \<le> c \<and> c \<le> ch CHR ''F'' then Some (c - ch CHR ''A'' + 10)
      else None)"

definition hex4 :: "nat \<Rightarrow> nat \<Rightarrow> nat \<Rightarrow> nat \<Rightarrow> nat option" where
  "hex4 a b c d =
     (case (hex_digit a, hex_digit b, hex_digit c, hex_digit d) of
        (Some x, Some y, Some z, Some w) \<Rightarrow> Some (((x * 16 + y) * 16 + z) * 16 + w)
      | _ \<Rightarrow> None)"

text \<open>The code unit a one-letter escape stands for (the letter after the backslash).\<close>

definition unescape :: "nat \<Rightarrow> nat option" where
  "unescape e =
     (if e = ch CHR 0x22 then Some 34
      else if e = ch CHR 0x5C then Some 92
      else if e = ch CHR ''/'' then Some 47
      else if e = ch CHR ''b'' then Some 8
      else if e = ch CHR ''f'' then Some 12
      else if e = ch CHR ''n'' then Some 10
      else if e = ch CHR ''r'' then Some 13
      else if e = ch CHR ''t'' then Some 9
      else None)"

text \<open>The characters of a string after its opening quote, up to the closing quote.\<close>

fun parse_string_chars :: "jsstring \<Rightarrow> (jsstring \<times> jsstring) option" where
  "parse_string_chars [] = None"
| "parse_string_chars (c # cs) =
     (if c = ch CHR 0x22 then Some ([], cs)
      else if c = ch CHR 0x5C then
        (case cs of
           [] \<Rightarrow> None
         | e # es \<Rightarrow>
             if e = ch CHR ''u'' then
               (case es of
                  h1 # h2 # h3 # h4 # r \<Rightarrow>
                    (case hex4 h1 h2 h3 h4 of
                       None \<Rightarrow> None
                     | Some u \<Rightarrow> map_option (\<lambda>(s, r'). (u # s, r')) (parse_string_chars r))
                | _ \<Rightarrow> None)
             else
               (case unescape e of
                  None \<Rightarrow> None
                | Some u \<Rightarrow> map_option (\<lambda>(s, r'). (u # s, r')) (parse_string_chars es)))
      else if c < 32 then None
      else map_option (\<lambda>(s, r'). (c # s, r')) (parse_string_chars cs))"

definition parse_digits :: "jsstring \<Rightarrow> (jsstring \<times> jsstring) option" where
  "parse_digits s = (if takeWhile is_digit s = [] then None
                     else Some (takeWhile is_digit s, dropWhile is_digit s))"

definition parse_int_part :: "jsstring \<Rightarrow> (jsstring \<times> jsstring) option" where
  "parse_int_part s =
     (case s of
        [] \<Rightarrow> None
      | d # r \<Rightarrow> if d = ch CHR ''0'' then Some ([d], r)
                 else if is_digit d then Some (d # takeWhile is_digit r, dropWhile is_digit r)
                 else None)"

definition parse_frac_part :: "jsstring \<Rightarrow> (jsstring \<times> jsstring) option" where
  "parse_frac_part s =
     (case s of
        [] \<Rightarrow> Some ([], s)
      | d # r \<Rightarrow> if d = ch CHR ''.'' then map_option (\<lambda>(ds, r'). (d # ds, r')) (parse_digits r)
                 else Some ([], s))"

definition parse_exp_part :: "jsstring \<Rightarrow> (jsstring \<times> jsstring) option" where
  "parse_exp_part s =
     (case s of
        [] \<Rightarrow> Some ([], s)
      | e # r \<Rightarrow>
          if e = ch CHR ''e'' \<or> e = ch CHR ''E'' then
            (case r of
               [] \<Rightarrow> None
             | g # r' \<Rightarrow>
                 if g = ch CHR ''+'' \<or> g = ch CHR ''-''
                 then map_option (\<lambda>(ds, r''). (e # g # ds, r'')) (parse_digits r')
                 else map_option (\<lambda>(ds, r''). (e # ds, r'')) (parse_digits r))
          else Some ([], s))"

definition parse_number :: "jsstring \<Rightarrow> (jsstring \<times> jsstring) option" where
  "parse_number s =
     (let (sign, s1) = (case s of [] \<Rightarrow> ([], s)
                        | c # cs \<Rightarrow> if c = ch CHR ''-'' then ([c], cs) else ([], s))
      in case parse_int_part s1 of
           None \<Rightarrow> None
         | Some (ip, s2) \<Rightarrow>
             (case parse_frac_part s2 of
                None \<Rightarrow> None
              | Some (fp, s3) \<Rightarrow>
                  (case parse_exp_part s3 of
                     None \<Rightarrow> None
                   | Some (ep, s4) \<Rightarrow> Some (sign @ ip @ fp @ ep, s4))))"

text \<open>A value that is neither an array nor an object.\<close>

definition parse_scalar :: "jsstring \<Rightarrow> (json \<times> jsstring) option" where
  "parse_scalar s =
     (if starts_with s (ascii ''true'') then Some (JBool True, drop 4 s)
      else if starts_with s (ascii ''false'') then Some (JBool False, drop 5 s)
      else if starts_with s (ascii ''null'') then Some (JNull, drop 4 s)
      else if starts_with s [ch CHR 0x22] then
        map_option (\<lambda>(str, r). (JStr str, r)) (parse_string_chars (drop 1 s))
      else map_option (\<lambda>(n, r). (JNum n, r)) (parse_number s))"

text \<open>
  \<open>parse_value\<close> reads a value after optional white space; \<open>parse_elements\<close> reads
  the elements of a non-empty array up to its \<^verbatim>\<open>]\<close>, \<open>parse_members\<close> the members
  of a non-empty object up to its \<^verbatim>\<open>}\<close>. The tests \<open>length r < length s\<close> make the
  recursion well-founded; they always hold (lemmas \<open>parse_elements_unguarded\<close> and
  \<open>parse_members_unguarded\<close> below), since reading a value consumes input.
\<close>

lemma length_skip_ws: "length (skip_ws s) \<le> length s"
  by (simp add: skip_ws_def length_dropWhile_le)

lemma skip_ws_Cons_length: "skip_ws s = c # cs \<Longrightarrow> length cs < length s"
  using length_skip_ws [of s] by simp

function parse_value :: "jsstring \<Rightarrow> (json \<times> jsstring) option"
  and parse_elements :: "jsstring \<Rightarrow> (json list \<times> jsstring) option"
  and parse_members :: "jsstring \<Rightarrow> ((jsstring \<times> json) list \<times> jsstring) option"
where
  "parse_value s =
     (case skip_ws s of
        [] \<Rightarrow> None
      | c # cs \<Rightarrow>
          if c = ch CHR ''['' then
            (case skip_ws cs of
               [] \<Rightarrow> None
             | d # ds \<Rightarrow> if d = ch CHR '']'' then Some (JArr [], ds)
                        else map_option (\<lambda>(vs, r). (JArr vs, r)) (parse_elements (d # ds)))
          else if c = ch CHR ''{'' then
            (case skip_ws cs of
               [] \<Rightarrow> None
             | d # ds \<Rightarrow> if d = ch CHR ''}'' then Some (JObj [], ds)
                        else map_option (\<lambda>(kvs, r). (JObj kvs, r)) (parse_members (d # ds)))
          else parse_scalar (c # cs))"
| "parse_elements s =
     (case parse_value s of
        None \<Rightarrow> None
      | Some (v, r) \<Rightarrow>
          (case skip_ws r of
             [] \<Rightarrow> None
           | c # r' \<Rightarrow>
               if c = ch CHR '','' then
                 (if length r' < length s
                  then map_option (\<lambda>(vs, r''). (v # vs, r'')) (parse_elements r')
                  else None)
               else if c = ch CHR '']'' then Some ([v], r')
               else None))"
| "parse_members s =
     (case skip_ws s of
        [] \<Rightarrow> None
      | q # cs \<Rightarrow>
          if q \<noteq> ch CHR 0x22 then None
          else
            (case parse_string_chars cs of
               None \<Rightarrow> None
             | Some (k, r) \<Rightarrow>
                 (case skip_ws r of
                    [] \<Rightarrow> None
                  | c # r1 \<Rightarrow>
                      if c \<noteq> ch CHR '':'' then None
                      else if \<not> length r1 < length s then None
                      else
                        (case parse_value r1 of
                           None \<Rightarrow> None
                         | Some (v, r2) \<Rightarrow>
                             (case skip_ws r2 of
                                [] \<Rightarrow> None
                              | c' # r3 \<Rightarrow>
                                  if c' = ch CHR '','' then
                                    (if length r3 < length s
                                     then map_option (\<lambda>(kvs, r4). ((k, v) # kvs, r4))
                                            (parse_members r3)
                                     else None)
                                  else if c' = ch CHR ''}'' then Some ([(k, v)], r3)
                                  else None)))))"
  by pat_completeness auto

termination
proof (relation "measure (\<lambda>x. case x of
          Inl s \<Rightarrow> 2 * length s
        | Inr (Inl s) \<Rightarrow> 2 * length s + 1
        | Inr (Inr s) \<Rightarrow> 2 * length s + 1)", goal_cases)
  case 1
  show ?case by simp
next
  case (2 s c cs d ds)
  from skip_ws_Cons_length [OF 2(1)] skip_ws_Cons_length [OF 2(3)]
  show ?case by simp
next
  case (3 s c cs d ds)
  from skip_ws_Cons_length [OF 3(1)] skip_ws_Cons_length [OF 3(4)]
  show ?case by simp
next
  case 4
  show ?case by simp
next
  case 5
  then show ?case by simp
next
  case 6
  then show ?case by simp
next
  case 7
  then show ?case by simp
qed

declare parse_value.simps [simp del] parse_elements.simps [simp del]
  parse_members.simps [simp del]

text \<open>\<^verbatim>\<open>JSON.parse(s)\<close>: one value, with nothing but white space after it.\<close>

definition JSON_parse :: "jsstring \<Rightarrow> json option" where
  "JSON_parse s =
     (case parse_value s of
        None \<Rightarrow> None
      | Some (v, r) \<Rightarrow> if skip_ws r = [] then Some v else None)"

section \<open>The response normalizer (utils/promptBuilder.ts)\<close>

subsection \<open>Locating the fenced JSON block\<close>

text \<open>
  \<^verbatim>\<open>response.match(/```json\s*([\s\S]*?)\s*```/)\<close>, as the backtracking matcher runs it.
  \<open>spaces_then_fence\<close> is \<^verbatim>\<open>\s*```\<close> at the current position; \<open>lazy_capture\<close> is
  the lazy group followed by \<^verbatim>\<open>\s*```\<close>: the shortest capture after which the rest
  matches; \<open>greedy_spaces_capture\<close> is the greedy \<^verbatim>\<open>\s*\<close> in front of the group: it
  takes as much white space as it can and gives it back when the rest fails;
  \<open>match_fence\<close> tries the start positions from left to right. The result is capture
  group 1, or \<open>None\<close> for \<^verbatim>\<open>null\<close>.
\<close>

definition fence_open :: jsstring where
  "fence_open = ascii ''```json''"

definition fence_close :: jsstring where
  "fence_close = ascii ''```''"

fun spaces_then_fence :: "jsstring \<Rightarrow> bool" where
  "spaces_then_fence [] = starts_with [] fence_close"
| "spaces_then_fence (c # cs) =
     ((is_js_space c \<and> spaces_then_fence cs) \<or> starts_with (c # cs) fence_close)"

fun lazy_capture :: "jsstring \<Rightarrow> jsstring option" where
  "lazy_capture [] = (if spaces_then_fence [] then Some [] else None)"
| "lazy_capture (c # cs) =
     (if spaces_then_fence (c # cs) then Some []
      else map_option ((#) c) (lazy_capture cs))"

fun greedy_spaces_capture :: "jsstring \<Rightarrow> jsstring option" where
  "greedy_spaces_capture [] = lazy_capture []"
| "greedy_spaces_capture (c # cs) =
     (if is_js_space c then
        (case greedy_spaces_capture cs of
           Some m \<Rightarrow> Some m
         | None \<Rightarrow> lazy_capture (c # cs))
      else lazy_capture (c # cs))"

definition match_fence_here :: "jsstring \<Rightarrow> jsstring option" where
  "match_fence_here s =
     (if starts_with s fence_open then greedy_spaces_capture (drop (length fence_open) s)
      else None)"

fun match_fence :: "jsstring \<Rightarrow> jsstring option" where
  "match_fence [] = match_fence_here []"
| "match_fence (c # cs) =
     (case match_fence_here (c # cs) of
        Some m \<Rightarrow> Some m
      | None \<Rightarrow> match_fence cs)"

subsection \<open>Removing trailing commas\<close>

text \<open>
  \<^verbatim>\<open>s.replace(/,\s*]/g, ']')\<close> and \<^verbatim>\<open>s.replace(/,\s*}/g, '}')\<close>, with the closing
  bracket as a parameter. \<open>match_spaces_closer\<close> is \<^verbatim>\<open>\s*]\<close> after the comma and
  returns the text after the match. A replaced match is not scanned again.
\<close>

fun match_spaces_closer :: "nat \<Rightarrow> jsstring \<Rightarrow> jsstring option" where
  "match_spaces_closer closer [] = None"
| "match_spaces_closer closer (c # cs) =
     (if c = closer then Some cs
      else if is_js_space c then match_spaces_closer closer cs
      else None)"

lemma match_spaces_closer_length:
  "match_spaces_closer closer s = Some r \<Longrightarrow> length r < length s"
  by (induction s) (auto split: if_splits)

function replace_comma_closer :: "nat \<Rightarrow> jsstring \<Rightarrow> jsstring" where
  "replace_comma_closer closer [] = []"
| "replace_comma_closer closer (c # cs) =
     (case (if c = ch CHR '','' then match_spaces_closer closer cs else None) of
        Some rest \<Rightarrow> closer # replace_comma_closer closer rest
      | None \<Rightarrow> c # replace_comma_closer closer cs)"
  by pat_completeness auto
termination
  by (relation "measure (\<lambda>(closer, s). length s)")
     (auto split: if_splits dest: match_spaces_closer_length)

text \<open>\<^verbatim>\<open>jsonStr.trim().replace(/,\s*]/g, ']').replace(/,\s*}/g, '}')\<close>\<close>

definition cleanJson :: "jsstring \<Rightarrow> jsstring" where
  "cleanJson jsonStr =
     replace_comma_closer (ch CHR ''}'') (replace_comma_closer (ch CHR '']'') (trim jsonStr))"

subsection \<open>Cards\<close>

text \<open>The card types of types/index.ts and their identifiers.\<close>

datatype CardType = TBasic | TBasicReverse | TCloze | TList | TDescriptor

fun card_type_name :: "CardType \<Rightarrow> jsstring" where
  "card_type_name TBasic = ascii ''basic''"
| "card_type_name TBasicReverse = ascii ''basic-reverse''"
| "card_type_name TCloze = ascii ''cloze''"
| "card_type_name TList = ascii ''list''"
| "card_type_name TDescriptor = ascii ''descriptor''"

text \<open>
  \<^verbatim>\<open>FlashcardData\<close>: \<^verbatim>\<open>back\<close> is a string or an array of strings, \<^verbatim>\<open>clozeText\<close> is
  optional.
\<close>

datatype back_value = BackText jsstring | BackItems "jsstring list"

record FlashcardData =
  type :: CardType
  front :: jsstring
  "back" :: back_value
  clozeText :: "jsstring option"

text \<open>
  The exceptions of the \<^verbatim>\<open>try\<close> block of \<^verbatim>\<open>parseAIResponse\<close>: the SyntaxError of
  \<^verbatim>\<open>JSON.parse\<close>, the Error thrown for a value that is not an array, and the TypeError
  of a conversion to string. \<open>CastError\<close> stands for a violated \<^verbatim>\<open>card.type as CardType\<close>:
  TypeScript does not check the cast, and the code applies \<^verbatim>\<open>normalizeCard\<close> only to
  elements that passed \<^verbatim>\<open>isValidCard\<close>, where the cast is sound (lemma
  \<open>isValidCard_as_CardType\<close>), so this error never occurs
  (lemma \<open>parseAIResponse_try_no_CastError\<close>).
\<close>

datatype js_error = SyntaxError | FormatError | TypeError | CastError

text \<open>
  What the program needs of a number read by \<^verbatim>\<open>JSON.parse\<close>, as functions of its
  literal: \<^verbatim>\<open>String(n)\<close>, and whether \<^verbatim>\<open>n\<close> is zero (the only falsy numbers
  \<^verbatim>\<open>JSON.parse\<close> can return). Floating point is not modelled: the functions are a
  parameter of the model, and every theorem holds for all of them.
\<close>

record number_ops =
  num_to_string :: "jsstring \<Rightarrow> jsstring"
  num_is_zero :: "jsstring \<Rightarrow> bool"

text \<open>
  \<^verbatim>\<open>c[k]\<close> for a value returned by \<^verbatim>\<open>JSON.parse\<close> and the property names the
  program reads (\<^verbatim>\<open>type\<close>, \<^verbatim>\<open>front\<close>, \<^verbatim>\<open>back\<close>, \<^verbatim>\<open>clozeText\<close>): an own property of
  an object, where the last member with the key counts; \<^verbatim>\<open>undefined\<close> (\<open>None\<close>)
  otherwise, also on an array.
\<close>

fun get_prop :: "json \<Rightarrow> jsstring \<Rightarrow> json option" where
  "get_prop (JObj kvs) k = map_of (rev kvs) k"
| "get_prop v k = None"

text \<open>\<^verbatim>\<open>typeof v === 'object' && v !== null\<close>: an object or an array.\<close>

definition is_object :: "json \<Rightarrow> bool" where
  "is_object v = (case v of JObj kvs \<Rightarrow> True | JArr xs \<Rightarrow> True | _ \<Rightarrow> False)"

text \<open>\<^verbatim>\<open>typeof v === 'string'\<close> and \<^verbatim>\<open>Array.isArray(v)\<close> on a property that may be undefined\<close>

definition is_string :: "json option \<Rightarrow> bool" where
  "is_string v = (case v of Some (JStr s) \<Rightarrow> True | _ \<Rightarrow> False)"

definition is_array :: "json option \<Rightarrow> bool" where
  "is_array v = (case v of Some (JArr xs) \<Rightarrow> True | _ \<Rightarrow> False)"

definition validTypes :: "CardType list" where
  "validTypes = [TBasic, TBasicReverse, TCloze, TList, TDescriptor]"

definition isValidCard :: "json \<Rightarrow> bool" where
  "isValidCard crd =
     (if \<not> is_object crd then False
      else if get_prop crd (ascii ''type'')
                \<notin> set (map (\<lambda>t. Some (JStr (card_type_name t))) validTypes)
        then False
      else if get_prop crd (ascii ''type'') = Some (JStr (ascii ''cloze'')) then
        (case get_prop crd (ascii ''clozeText'') of
           Some (JStr t) \<Rightarrow> str_includes t (ascii ''{{'')
         | _ \<Rightarrow> False)
      else if get_prop crd (ascii ''type'') = Some (JStr (ascii ''list'')) then
        is_string (get_prop crd (ascii ''front'')) \<and> is_array (get_prop crd (ascii ''back''))
      else is_string (get_prop crd (ascii ''front'')) \<and> is_string (get_prop crd (ascii ''back'')))"

text \<open>\<^verbatim>\<open>xs.map(f)\<close> where \<^verbatim>\<open>f\<close> may throw: the first exception ends the loop.\<close>

fun map_err :: "('a \<Rightarrow> js_error + 'b) \<Rightarrow> 'a list \<Rightarrow> js_error + 'b list" where
  "map_err f [] = Inr []"
| "map_err f (x # xs) =
     (case f x of
        Inl e \<Rightarrow> Inl e
      | Inr y \<Rightarrow> (case map_err f xs of Inl e \<Rightarrow> Inl e | Inr ys \<Rightarrow> Inr (y # ys)))"

lemma map_err_cong [fundef_cong]:
  "xs = ys \<Longrightarrow> (\<And>x. x \<in> set ys \<Longrightarrow> f x = g x) \<Longrightarrow> map_err f xs = map_err g ys"
  by (induction ys arbitrary: xs) (auto split: sum.splits)

text \<open>
  \<^verbatim>\<open>String(v)\<close> for a value returned by \<^verbatim>\<open>JSON.parse\<close>. An array is joined with
  commas, \<^verbatim>\<open>null\<close> elements giving the empty string. An object is converted by
  \<^verbatim>\<open>toString\<close>: \<^verbatim>\<open>Object.prototype.toString\<close> gives \<^verbatim>\<open>[object Object]\<close>; an own
  property \<^verbatim>\<open>toString\<close> hides it and is never callable, \<^verbatim>\<open>valueOf\<close> then returns no
  primitive, and the conversion throws a TypeError.
\<close>

fun to_string :: "number_ops \<Rightarrow> json \<Rightarrow> js_error + jsstring" where
  "to_string N JNull = Inr (ascii ''null'')"
| "to_string N (JBool b) = Inr (if b then ascii ''true'' else ascii ''false'')"
| "to_string N (JNum n) = Inr (num_to_string N n)"
| "to_string N (JStr s) = Inr s"
| "to_string N (JArr xs) =
     (case map_err (\<lambda>x. if x = JNull then Inr [] else to_string N x) xs of
        Inl e \<Rightarrow> Inl e
      | Inr strs \<Rightarrow> Inr (join (ascii '','') strs))"
| "to_string N (JObj kvs) =
     (if map_of kvs (ascii ''toString'') \<noteq> None then Inl TypeError
      else Inr (ascii ''[object Object]''))"

text \<open>Truthiness of a property, and \<^verbatim>\<open>v || ''\<close>.\<close>

definition truthy :: "number_ops \<Rightarrow> json option \<Rightarrow> bool" where
  "truthy N v =
     (case v of
        None \<Rightarrow> False
      | Some JNull \<Rightarrow> False
      | Some (JBool b) \<Rightarrow> b
      | Some (JNum n) \<Rightarrow> \<not> num_is_zero N n
      | Some (JStr s) \<Rightarrow> s \<noteq> []
      | Some (JArr xs) \<Rightarrow> True
      | Some (JObj kvs) \<Rightarrow> True)"

definition or_empty :: "number_ops \<Rightarrow> json option \<Rightarrow> json" where
  "or_empty N v = (case v of Some x \<Rightarrow> if truthy N v then x else JStr [] | None \<Rightarrow> JStr [])"

text \<open>\<^verbatim>\<open>v as CardType\<close>, defined where the cast is sound.\<close>

definition as_CardType :: "json option \<Rightarrow> CardType option" where
  "as_CardType v = List.find (\<lambda>t. v = Some (JStr (card_type_name t))) validTypes"

text \<open>
  \<^verbatim>\<open>normalizeCard\<close>. The fields are evaluated in the order of the source: \<^verbatim>\<open>front\<close>,
  \<^verbatim>\<open>back\<close>, then \<^verbatim>\<open>clozeText\<close>. \<^verbatim>\<open>(card.back as string[]).map(String)\<close> throws a
  TypeError when \<^verbatim>\<open>back\<close> has no \<^verbatim>\<open>map\<close> method.
\<close>

definition normalizeCard :: "number_ops \<Rightarrow> json \<Rightarrow> js_error + FlashcardData" where
  "normalizeCard N crd =
     (case as_CardType (get_prop crd (ascii ''type'')) of
        None \<Rightarrow> Inl CastError
      | Some ty \<Rightarrow>
     (case to_string N (or_empty N (get_prop crd (ascii ''front''))) of
        Inl e \<Rightarrow> Inl e
      | Inr f \<Rightarrow>
     (case (if get_prop crd (ascii ''type'') = Some (JStr (ascii ''list'')) then
              (case get_prop crd (ascii ''back'') of
                 Some (JArr xs) \<Rightarrow> map_sum id BackItems (map_err (to_string N) xs)
               | _ \<Rightarrow> Inl TypeError)
            else map_sum id BackText (to_string N (or_empty N (get_prop crd (ascii ''back''))))) of
        Inl e \<Rightarrow> Inl e
      | Inr b \<Rightarrow>
     (case (if get_prop crd (ascii ''type'') = Some (JStr (ascii ''cloze'')) \<and>
               truthy N (get_prop crd (ascii ''clozeText''))
            then (case get_prop crd (ascii ''clozeText'') of
                    Some v \<Rightarrow> map_sum id Some (to_string N v)
                  | None \<Rightarrow> Inr None)
            else Inr None) of
        Inl e \<Rightarrow> Inl e
      | Inr ct \<Rightarrow> Inr \<lparr>type = ty, front = f, back = b, clozeText = ct\<rparr>))))"

text \<open>
  The \<^verbatim>\<open>try\<close> block of \<^verbatim>\<open>parseAIResponse\<close>, with its exceptions as values, and
  \<^verbatim>\<open>parseAIResponse\<close> itself, whose \<^verbatim>\<open>catch\<close> logs the exception and returns the
  empty array.
\<close>

definition json_candidate :: "jsstring \<Rightarrow> jsstring" where
  "json_candidate response = (case match_fence response of Some m \<Rightarrow> m | None \<Rightarrow> response)"

definition parseAIResponse_try :: "number_ops \<Rightarrow> jsstring \<Rightarrow> js_error + FlashcardData list" where
  "parseAIResponse_try N response =
     (let jsonStr = json_candidate response;
          cleanedJson = cleanJson jsonStr
      in case JSON_parse cleanedJson of
           None \<Rightarrow> Inl SyntaxError
         | Some (JArr parsed) \<Rightarrow> map_err (normalizeCard N) (filter isValidCard parsed)
         | Some _ \<Rightarrow> Inl FormatError)"

definition parseAIResponse :: "number_ops \<Rightarrow> jsstring \<Rightarrow> FlashcardData list" where
  "parseAIResponse N response =
     (case parseAIResponse_try N response of
        Inl e \<Rightarrow> []
      | Inr cards \<Rightarrow> cards)"

subsection \<open>\<^verbatim>\<open>JSON.stringify\<close> of a card sequence\<close>

text \<open>
  \<^verbatim>\<open>JSON.stringify(cards)\<close> for an array of \<^verbatim>\<open>FlashcardData\<close>: the properties in
  the order \<^verbatim>\<open>normalizeCard\<close> creates them, no white space, strings quoted by
  QuoteJSONString (the short escapes, \<^verbatim>\<open>\u00xx\<close> below U+0020, \<^verbatim>\<open>\udxxx\<close> for a
  surrogate that is not part of a pair).
\<close>

definition hex_char :: "nat \<Rightarrow> nat" where
  "hex_char n = (if n < 10 then ch CHR ''0'' + n else ch CHR ''a'' + (n - 10))"

definition unicode_escape :: "nat \<Rightarrow> jsstring" where
  "unicode_escape c =
     [ch CHR 0x5C, ch CHR ''u'', hex_char (c div 4096 mod 16), hex_char (c div 256 mod 16),
      hex_char (c div 16 mod 16), hex_char (c mod 16)]"

definition is_high_surrogate :: "nat \<Rightarrow> bool" where
  "is_high_surrogate c \<longleftrightarrow> 0xD800 \<le> c \<and> c \<le> 0xDBFF"

definition is_low_surrogate :: "nat \<Rightarrow> bool" where
  "is_low_surrogate c \<longleftrightarrow> 0xDC00 \<le> c \<and> c \<le> 0xDFFF"

fun quote_chars :: "jsstring \<Rightarrow> jsstring" where
  "quote_chars [] = []"
| "quote_chars (c # cs) =
     (if c = 8 then [ch CHR 0x5C, ch CHR ''b''] @ quote_chars cs
      else if c = 9 then [ch CHR 0x5C, ch CHR ''t''] @ quote_chars cs
      else if c = 10 then [ch CHR 0x5C, ch CHR ''n''] @ quote_chars cs
      else if c = 12 then [ch CHR 0x5C, ch CHR ''f''] @ quote_chars cs
      else if c = 13 then [ch CHR 0x5C, ch CHR ''r''] @ quote_chars cs
      else if c = 34 then [ch CHR 0x5C, ch CHR 0x22] @ quote_chars cs
      else if c = 92 then [ch CHR 0x5C, ch CHR 0x5C] @ quote_chars cs
      else if c < 32 then unicode_escape c @ quote_chars cs
      else if is_high_surrogate c then
        (case cs of
           [] \<Rightarrow> unicode_escape c
         | d # ds \<Rightarrow> if is_low_surrogate d then c # d # quote_chars ds
                    else unicode_escape c @ quote_chars cs)
      else if is_low_surrogate c then unicode_escape c @ quote_chars cs
      else c # quote_chars cs)"

definition quote_json :: "jsstring \<Rightarrow> jsstring" where
  "quote_json s = [ch CHR 0x22] @ quote_chars s @ [ch CHR 0x22]"

definition stringify_card :: "FlashcardData \<Rightarrow> jsstring" where
  \<open>stringify_card crd =
     ascii ''{"type":'' @ quote_json (card_type_name (type crd)) @
     ascii '',"front":'' @ quote_json (front crd) @
     ascii '',"back":'' @
     (case back crd of
        BackText s \<Rightarrow> quote_json s
      | BackItems xs \<Rightarrow> ascii ''['' @ join (ascii '','') (map quote_json xs) @ ascii '']'') @
     (case clozeText crd of
        None \<Rightarrow> []
      | Some t \<Rightarrow> ascii '',"clozeText":'' @ quote_json t) @
     ascii ''}''\<close>

definition JSON_stringify :: "FlashcardData list \<Rightarrow> jsstring" where
  "JSON_stringify cards = ascii ''['' @ join (ascii '','') (map stringify_card cards) @ ascii '']''"

section \<open>The card renderer (services/cardGenerator.ts)\<close>

text \<open>
  The host is reached through \<^verbatim>\<open>plugin.rem.createSingleRemWithMarkdown(markdown,
  parentRemId)\<close> only. A call resolves to a Rem, resolves to \<^verbatim>\<open>undefined\<close>, or is
  rejected, which \<^verbatim>\<open>await\<close> turns into an exception. The host is a parameter of the
  model: a function from the calls made so far and the present call to its reply. The
  state that the renderer threads is the list of the calls made so far.
\<close>

record RemObject =
  rem_id :: jsstring

datatype host_reply = Created RemObject | NoRef | Rejected

type_synonym host_call = "jsstring \<times> jsstring option"

type_synonym host = "host_call list \<Rightarrow> host_call \<Rightarrow> host_reply"

datatype 'a outcome = Returned 'a | Threw

definition createSingleRemWithMarkdown ::
  "host \<Rightarrow> host_call list \<Rightarrow> jsstring \<Rightarrow> jsstring option
     \<Rightarrow> RemObject option outcome \<times> host_call list" where
  "createSingleRemWithMarkdown h log markdown parentRemId =
     ((case h log (markdown, parentRemId) of
         Created r \<Rightarrow> Returned (Some r)
       | NoRef \<Rightarrow> Returned None
       | Rejected \<Rightarrow> Threw),
      log @ [(markdown, parentRemId)])"

text \<open>\<^verbatim>\<open>${card.back}\<close>: an array is joined with commas.\<close>

definition back_text :: "back_value \<Rightarrow> jsstring" where
  "back_text b = (case b of BackText s \<Rightarrow> s | BackItems xs \<Rightarrow> join (ascii '','') xs)"

definition createBasicCard ::
  "host \<Rightarrow> host_call list \<Rightarrow> FlashcardData \<Rightarrow> jsstring option \<Rightarrow> bool
     \<Rightarrow> RemObject option outcome \<times> host_call list" where
  "createBasicCard h log crd parentRemId bidirectional =
     (let separator = (if bidirectional then ascii '' <> '' else ascii '' >> '');
          markdown = front crd @ separator @ back_text (back crd)
      in createSingleRemWithMarkdown h log markdown parentRemId)"

text \<open>
  \<^verbatim>\<open>clozeText.replace(/\{\{c\d+::(.*?)\}\}/g, '{{$1}}')\<close>. The dot matches every code
  unit but a line terminator. \<open>lazy_until_close\<close> is the lazy group followed by
  \<^verbatim>\<open>\}\}\<close>: it returns the capture and the text after the match.
\<close>

definition is_line_terminator :: "nat \<Rightarrow> bool" where
  "is_line_terminator c \<longleftrightarrow> c = 10 \<or> c = 13 \<or> c = 8232 \<or> c = 8233"

fun lazy_until_close :: "jsstring \<Rightarrow> (jsstring \<times> jsstring) option" where
  "lazy_until_close [] = None"
| "lazy_until_close (c # cs) =
     (if starts_with (c # cs) (ascii ''}}'') then Some ([], drop 2 (c # cs))
      else if is_line_terminator c then None
      else map_option (\<lambda>(x, r). (c # x, r)) (lazy_until_close cs))"

definition match_cloze_here :: "jsstring \<Rightarrow> (jsstring \<times> jsstring) option" where
  "match_cloze_here s =
     (if starts_with s (ascii ''{{c'') then
        (let r = drop 3 s in
         if takeWhile is_digit r \<noteq> [] \<and> starts_with (dropWhile is_digit r) (ascii ''::'')
         then lazy_until_close (drop 2 (dropWhile is_digit r))
         else None)
      else None)"

lemma lazy_until_close_length:
  "lazy_until_close s = Some (x, r) \<Longrightarrow> length r < length s"
  by (induction s arbitrary: x) (auto split: if_splits)

lemma match_cloze_here_length:
  assumes "match_cloze_here s = Some (x, r)"
  shows "length r < length s"
proof -
  from assms have "lazy_until_close (drop 2 (dropWhile is_digit (drop 3 s))) = Some (x, r)"
    by (simp add: match_cloze_here_def Let_def split: if_splits)
  then have "length r < length (drop 2 (dropWhile is_digit (drop 3 s)))"
    by (rule lazy_until_close_length)
  also have "\<dots> \<le> length (dropWhile is_digit (drop 3 s))"
    by simp
  also have "\<dots> \<le> length (drop 3 s)"
    by (rule length_dropWhile_le)
  also have "\<dots> \<le> length s"
    by simp
  finally show ?thesis .
qed

function replace_cloze :: "jsstring \<Rightarrow> jsstring" where
  "replace_cloze [] = []"
| "replace_cloze (c # cs) =
     (case match_cloze_here (c # cs) of
        Some (x, rest) \<Rightarrow> ascii ''{{'' @ x @ ascii ''}}'' @ replace_cloze rest
      | None \<Rightarrow> c # replace_cloze cs)"
  by pat_completeness auto
termination
  by (relation "measure length") (auto dest: match_cloze_here_length)

text \<open>\<^verbatim>\<open>!card.clozeText\<close> holds for a missing and for an empty \<^verbatim>\<open>clozeText\<close>.\<close>

definition createClozeCard ::
  "host \<Rightarrow> host_call list \<Rightarrow> FlashcardData \<Rightarrow> jsstring option
     \<Rightarrow> RemObject option outcome \<times> host_call list" where
  "createClozeCard h log crd parentRemId =
     (case clozeText crd of
        None \<Rightarrow> (Returned None, log)
      | Some ct \<Rightarrow>
          if ct = [] then (Returned None, log)
          else createSingleRemWithMarkdown h log (replace_cloze ct) parentRemId)"

text \<open>
  The loop over \<^verbatim>\<open>backItems\<close> of \<^verbatim>\<open>createListCard\<close>: the Rem a call returns is not
  looked at, a rejected call ends the loop with the exception.
\<close>

fun create_children ::
  "host \<Rightarrow> host_call list \<Rightarrow> jsstring \<Rightarrow> jsstring list \<Rightarrow> unit outcome \<times> host_call list" where
  "create_children h log pid [] = (Returned (), log)"
| "create_children h log pid (item # items) =
     (case createSingleRemWithMarkdown h log item (Some pid) of
        (Threw, log') \<Rightarrow> (Threw, log')
      | (Returned r, log') \<Rightarrow> create_children h log' pid items)"

definition createListCard ::
  "host \<Rightarrow> host_call list \<Rightarrow> FlashcardData \<Rightarrow> jsstring option
     \<Rightarrow> RemObject option outcome \<times> host_call list" where
  "createListCard h log crd parentRemId =
     (let backItems = (case back crd of BackItems xs \<Rightarrow> xs | BackText s \<Rightarrow> [s]) in
      case createSingleRemWithMarkdown h log (front crd @ ascii '' >>>'') parentRemId of
        (Threw, log') \<Rightarrow> (Threw, log')
      | (Returned None, log') \<Rightarrow> (Returned None, log')
      | (Returned (Some parentRem), log') \<Rightarrow>
          (case create_children h log' (rem_id parentRem) backItems of
             (Threw, log'') \<Rightarrow> (Threw, log'')
           | (Returned u, log'') \<Rightarrow> (Returned (Some parentRem), log'')))"

definition createDescriptorCard ::
  "host \<Rightarrow> host_call list \<Rightarrow> FlashcardData \<Rightarrow> jsstring option
     \<Rightarrow> RemObject option outcome \<times> host_call list" where
  "createDescriptorCard h log crd parentRemId =
     createSingleRemWithMarkdown h log
       (front crd @ ascii '' ;; '' @ back_text (back crd)) parentRemId"

text \<open>
  \<^verbatim>\<open>createSingleCard\<close>; the \<^verbatim>\<open>default\<close> branch of its \<^verbatim>\<open>switch\<close> is for a value
  outside \<^verbatim>\<open>CardType\<close>, which the type of \<^verbatim>\<open>FlashcardData\<close> excludes.
\<close>

definition createSingleCard ::
  "host \<Rightarrow> host_call list \<Rightarrow> FlashcardData \<Rightarrow> jsstring option
     \<Rightarrow> RemObject option outcome \<times> host_call list" where
  "createSingleCard h log crd parentRemId =
     (case type crd of
        TBasic \<Rightarrow> createBasicCard h log crd parentRemId False
      | TBasicReverse \<Rightarrow> createBasicCard h log crd parentRemId True
      | TCloze \<Rightarrow> createClozeCard h log crd parentRemId
      | TList \<Rightarrow> createListCard h log crd parentRemId
      | TDescriptor \<Rightarrow> createDescriptorCard h log crd parentRemId)"

text \<open>
  \<^verbatim>\<open>createFlashcards\<close>: the \<^verbatim>\<open>for\<close> loop with its accumulator \<^verbatim>\<open>createdRems\<close>; the
  \<^verbatim>\<open>catch\<close> of the loop body logs the exception and goes on.
\<close>

fun createFlashcards_loop ::
  "host \<Rightarrow> jsstring option \<Rightarrow> FlashcardData list \<Rightarrow> RemObject list \<Rightarrow> host_call list
     \<Rightarrow> RemObject list \<times> host_call list" where
  "createFlashcards_loop h parentRemId [] createdRems log = (createdRems, log)"
| "createFlashcards_loop h parentRemId (crd # cards) createdRems log =
     (case createSingleCard h log crd parentRemId of
        (Returned (Some r), log') \<Rightarrow>
          createFlashcards_loop h parentRemId cards (createdRems @ [r]) log'
      | (Returned None, log') \<Rightarrow> createFlashcards_loop h parentRemId cards createdRems log'
      | (Threw, log') \<Rightarrow> createFlashcards_loop h parentRemId cards createdRems log')"

definition createFlashcards ::
  "host \<Rightarrow> host_call list \<Rightarrow> FlashcardData list \<Rightarrow> jsstring option
     \<Rightarrow> RemObject list \<times> host_call list" where
  "createFlashcards h log cards parentRemId = createFlashcards_loop h parentRemId cards [] log"

section \<open>The prompt compiler (utils/promptBuilder.ts)\<close>












section \<open>Notions of the specification\<close>

text \<open>
  The definitions of this section are not code of the program: they state what the
  theorems below say about it.
\<close>

text \<open>
  The validity predicate in the words of the specification: a non-null object whose
  \<^verbatim>\<open>type\<close> is one of the five identifiers; for \<^verbatim>\<open>cloze\<close>, \<^verbatim>\<open>clozeText\<close> is a string
  that contains \<^verbatim>\<open>{{\<close>; for \<^verbatim>\<open>list\<close>, \<^verbatim>\<open>front\<close> is a string and \<^verbatim>\<open>back\<close> an array;
  for the other types \<^verbatim>\<open>front\<close> and \<^verbatim>\<open>back\<close> are strings.
\<close>

definition valid_by_spec :: "json \<Rightarrow> bool" where
  "valid_by_spec e \<longleftrightarrow>
     is_object e \<and>
     (\<exists>t. get_prop e (ascii ''type'') = Some (JStr (card_type_name t)) \<and>
       (if t = TCloze then
          \<exists>s. get_prop e (ascii ''clozeText'') = Some (JStr s) \<and> sublist (ascii ''{{'') s
        else if t = TList then
          (\<exists>f. get_prop e (ascii ''front'') = Some (JStr f)) \<and>
          (\<exists>xs. get_prop e (ascii ''back'') = Some (JArr xs))
        else
          (\<exists>f. get_prop e (ascii ''front'') = Some (JStr f)) \<and>
          (\<exists>b. get_prop e (ascii ''back'') = Some (JStr b))))"

text \<open>
  The shape of a card: \<^verbatim>\<open>back\<close> is an array exactly for the type \<^verbatim>\<open>list\<close>, and
  \<^verbatim>\<open>clozeText\<close> is present exactly for the type \<^verbatim>\<open>cloze\<close>, where it contains
  \<^verbatim>\<open>{{\<close>. That \<^verbatim>\<open>front\<close> is a string, and \<^verbatim>\<open>back\<close> a string or an array of strings,
  is the type of \<^verbatim>\<open>FlashcardData\<close>.
\<close>

definition card_shape :: "FlashcardData \<Rightarrow> bool" where
  "card_shape c \<longleftrightarrow>
     (case back c of BackItems xs \<Rightarrow> type c = TList | BackText s \<Rightarrow> type c \<noteq> TList) \<and>
     (case clozeText c of
        Some t \<Rightarrow> type c = TCloze \<and> str_includes t (ascii ''{{'')
      | None \<Rightarrow> type c \<noteq> TCloze)"

text \<open>The value that \<^verbatim>\<open>JSON.parse\<close> returns for the serialization of a card.\<close>

definition card_json :: "FlashcardData \<Rightarrow> json" where
  "card_json c =
     JObj ([(ascii ''type'', JStr (card_type_name (type c))),
            (ascii ''front'', JStr (front c)),
            (ascii ''back'', (case back c of BackText s \<Rightarrow> JStr s | BackItems xs \<Rightarrow> JArr (map JStr xs)))]
           @ (case clozeText c of None \<Rightarrow> [] | Some t \<Rightarrow> [(ascii ''clozeText'', JStr t)]))"



text \<open>
  The outcome of every card of a batch, each card starting from the calls the cards
  before it have made: a reference, no reference, or an exception.
\<close>

fun card_outcomes ::
  "host \<Rightarrow> jsstring option \<Rightarrow> host_call list \<Rightarrow> FlashcardData list
     \<Rightarrow> RemObject option outcome list" where
  "card_outcomes h p log [] = []"
| "card_outcomes h p log (crd # cards) =
     fst (createSingleCard h log crd p) #
     card_outcomes h p (snd (createSingleCard h log crd p)) cards"

text \<open>The references among the outcomes, in order.\<close>

fun created_refs :: "RemObject option outcome list \<Rightarrow> RemObject list" where
  "created_refs [] = []"
| "created_refs (Returned (Some r) # os) = r # created_refs os"
| "created_refs (Returned None # os) = created_refs os"
| "created_refs (Threw # os) = created_refs os"

text \<open>
  A number semantics for closed examples: the literal is its own decimal form, and it is
  zero when its mantissa has no digit but \<^verbatim>\<open>0\<close>. This is what JavaScript does for literals
  such as \<^verbatim>\<open>0\<close>, \<^verbatim>\<open>7\<close> and \<^verbatim>\<open>2.5\<close>; the examples below contain no number.
\<close>

definition literal_numbers :: number_ops where
  "literal_numbers =
     \<lparr>num_to_string = (\<lambda>n. n),
      num_is_zero = (\<lambda>n. list_all (\<lambda>c. \<not> (ch CHR ''1'' \<le> c \<and> c \<le> ch CHR ''9''))
                             (takeWhile (\<lambda>c. c \<noteq> ch CHR ''e'' \<and> c \<noteq> ch CHR ''E'') n))\<rparr>"

section \<open>Facts about strings\<close>

lemma ascii_simps:
  "ascii [] = []" "ascii (c # cs) = of_char c # ascii cs"
  by (simp_all add: ascii_def)

lemma starts_with_prefix: "starts_with s p \<longleftrightarrow> prefix p s"
  by (induction s p rule: starts_with.induct) auto

lemma starts_with_short:
  "length p \<le> length a \<Longrightarrow> starts_with (a @ b) p = starts_with a p"
  by (induction a p rule: starts_with.induct) auto

lemma str_includes_sublist: "str_includes s p \<longleftrightarrow> sublist p s"
proof (induction s)
  case Nil
  then show ?case by (cases p) simp_all
next
  case (Cons c cs)
  then show ?case by (simp add: starts_with_prefix sublist_Cons_right)
qed

lemma length_trim_le: "length (trim s) \<le> length s"
proof -
  have "length (trim s) \<le> length (dropWhile is_js_space s)"
    unfolding trim_def using length_dropWhile_le [of is_js_space "rev (dropWhile is_js_space s)"]
    by simp
  also have "\<dots> \<le> length s"
    by (rule length_dropWhile_le)
  finally show ?thesis .
qed

lemma trim_id:
  assumes "s \<noteq> []" "\<not> is_js_space (hd s)" "\<not> is_js_space (last s)"
  shows "trim s = s"
proof -
  from assms have a: "dropWhile is_js_space s = s"
    by (cases s) simp_all
  from assms have "dropWhile is_js_space (rev s) = rev s"
    by (cases "rev s") (simp_all add: last_rev [symmetric] hd_rev)
  with a show ?thesis
    by (simp add: trim_def)
qed

section \<open>Facts about the JSON parser\<close>

text \<open>Every parsing function consumes input, so the length tests of the parser always hold.\<close>

lemma parse_string_chars_length:
  "parse_string_chars s = Some (x, r) \<Longrightarrow> length r < length s"
proof (induction s arbitrary: x rule: parse_string_chars.induct)
  case 1
  then show ?case by simp
next
  case (2 c cs)
  show ?case
    using "2.prems" "2.IH"
    by (fastforce split: if_splits list.splits option.splits)
qed

lemma parse_digits_length: "parse_digits s = Some (x, r) \<Longrightarrow> length r < length s"
  unfolding parse_digits_def
  by (cases s) (auto split: if_splits simp: less_Suc_eq_le length_dropWhile_le)

lemma parse_int_part_length: "parse_int_part s = Some (x, r) \<Longrightarrow> length r < length s"
  unfolding parse_int_part_def
  by (cases s) (auto split: if_splits simp: less_Suc_eq_le length_dropWhile_le)

lemma parse_frac_part_length: "parse_frac_part s = Some (x, r) \<Longrightarrow> length r \<le> length s"
  unfolding parse_frac_part_def
  by (cases s) (auto split: if_splits dest!: parse_digits_length)

lemma parse_exp_part_length: "parse_exp_part s = Some (x, r) \<Longrightarrow> length r \<le> length s"
  unfolding parse_exp_part_def
  by (cases s) (auto split: if_splits list.splits dest!: parse_digits_length)

lemma parse_number_length:
  assumes "parse_number s = Some (x, r)"
  shows "length r < length s"
proof -
  obtain sg s1 where a: "(case s of [] \<Rightarrow> ([], s)
      | c # cs \<Rightarrow> if c = ch CHR ''-'' then ([c], cs) else ([], s)) = (sg, s1)"
    by (cases "(case s of [] \<Rightarrow> ([]::jsstring, s)
      | c # cs \<Rightarrow> if c = ch CHR ''-'' then ([c], cs) else ([], s))")
  then have l1: "length s1 \<le> length s"
    by (cases s) (auto split: if_splits)
  from assms a obtain ip s2 fp s3 ep where
    "parse_int_part s1 = Some (ip, s2)" "parse_frac_part s2 = Some (fp, s3)"
    "parse_exp_part s3 = Some (ep, r)"
    by (auto simp: parse_number_def split: option.splits)
  then have "length s2 < length s1" "length s3 \<le> length s2" "length r \<le> length s3"
    by (auto dest: parse_int_part_length parse_frac_part_length parse_exp_part_length)
  with l1 show ?thesis by simp
qed

lemma starts_with_length: "starts_with s p \<Longrightarrow> length p \<le> length s"
  by (induction s p rule: starts_with.induct) auto

lemma parse_scalar_length:
  assumes "parse_scalar s = Some (v, r)"
  shows "length r < length s"
proof -
  have t: "starts_with s (ascii ''true'') \<Longrightarrow> length (drop 4 s) < length s"
    and f: "starts_with s (ascii ''false'') \<Longrightarrow> length (drop 5 s) < length s"
    and n: "starts_with s (ascii ''null'') \<Longrightarrow> length (drop 4 s) < length s"
    and q: "starts_with s [ch CHR 0x22] \<Longrightarrow> length (drop 1 s) < length s"
    by (auto dest!: starts_with_length simp: ascii_simps)
  from assms show ?thesis
    unfolding parse_scalar_def
    using t f n q
    by (auto split: if_splits dest!: parse_string_chars_length parse_number_length)
qed

lemma parse_rest_shorter:
  "parse_value s = Some (v, r) \<Longrightarrow> length r < length s"
  "parse_elements s1 = Some (vs, r1) \<Longrightarrow> length r1 < length s1"
  "parse_members s2 = Some (kvs, r2) \<Longrightarrow> length r2 < length s2"
proof (induction s and s1 and s2 arbitrary: v r and vs r1 and kvs r2
    rule: parse_value_parse_elements_parse_members.induct)
  case (1 s)
  note pv = "1.prems" [unfolded parse_value.simps [of s]]
  from pv obtain c cs where sk: "skip_ws s = c # cs"
    by (cases "skip_ws s") auto
  then have lcs: "length cs < length s" by (rule skip_ws_Cons_length)
  show ?case
  proof (cases "c = ch CHR ''[''")
    case True
    with pv sk obtain d ds where sk2: "skip_ws cs = d # ds"
      by (cases "skip_ws cs") auto
    then have lds: "length ds < length cs" by (rule skip_ws_Cons_length)
    show ?thesis
    proof (cases "d = ch CHR '']''")
      case True
      with pv sk sk2 \<open>c = ch CHR ''[''\<close> have "r = ds" by simp
      with lds lcs show ?thesis by simp
    next
      case False
      with pv sk sk2 \<open>c = ch CHR ''[''\<close> obtain vs' where
        "parse_elements (d # ds) = Some (vs', r)"
        by auto
      from "1.IH"(1) [OF sk \<open>c = ch CHR ''[''\<close> sk2 False this] lds lcs
      show ?thesis by simp
    qed
  next
    case nb: False
    show ?thesis
    proof (cases "c = ch CHR ''{''")
      case True
      with pv sk nb obtain d ds where sk2: "skip_ws cs = d # ds"
        by (cases "skip_ws cs") auto
      then have lds: "length ds < length cs" by (rule skip_ws_Cons_length)
      show ?thesis
      proof (cases "d = ch CHR ''}''")
        case True
        with pv sk sk2 nb \<open>c = ch CHR ''{''\<close> have "r = ds" by simp
        with lds lcs show ?thesis by simp
      next
        case False
        with pv sk sk2 nb \<open>c = ch CHR ''{''\<close> obtain kvs' where
          "parse_members (d # ds) = Some (kvs', r)"
          by auto
        from "1.IH"(2) [OF sk nb \<open>c = ch CHR ''{''\<close> sk2 False this] lds lcs
        show ?thesis by simp
      qed
    next
      case False
      with pv sk nb have "parse_scalar (c # cs) = Some (v, r)" by simp
      then have "length r < length (c # cs)" by (rule parse_scalar_length)
      with sk length_skip_ws [of s] show ?thesis by simp
    qed
  qed
next
  case (2 s)
  note pe = "2.prems" [unfolded parse_elements.simps [of s]]
  from pe obtain v r where pv: "parse_value s = Some (v, r)"
    by (cases "parse_value s") auto
  then have lr: "length r < length s" by (rule "2.IH"(1))
  from pe pv obtain c r' where sk: "skip_ws r = c # r'"
    by (cases "skip_ws r") auto
  then have lr': "length r' < length r" by (rule skip_ws_Cons_length)
  show ?case
  proof (cases "c = ch CHR '',''")
    case True
    from lr lr' have g: "length r' < length s" by simp
    with pe pv sk True obtain vs' where "parse_elements r' = Some (vs', r1)"
      by auto
    from "2.IH"(2) [OF pv refl sk True g this] g
    show ?thesis by simp
  next
    case False
    with pe pv sk have "r1 = r'" by (auto split: if_splits)
    with lr lr' show ?thesis by simp
  qed
next
  case (3 s)
  note pm = "3.prems" [unfolded parse_members.simps [of s]]
  from pm obtain q cs where sk: "skip_ws s = q # cs"
    by (cases "skip_ws s") auto
  then have lcs: "length cs < length s" by (rule skip_ws_Cons_length)
  from pm sk have q: "q = ch CHR 0x22" by (auto split: if_splits)
  from pm sk q obtain k r where ps: "parse_string_chars cs = Some (k, r)"
    by (cases "parse_string_chars cs") auto
  then have lr: "length r < length cs" by (rule parse_string_chars_length)
  from pm sk q ps obtain c r1' where sk1: "skip_ws r = c # r1'"
    by (cases "skip_ws r") auto
  then have lr1: "length r1' < length r" by (rule skip_ws_Cons_length)
  from pm sk q ps sk1 have c: "c = ch CHR '':''" by (auto split: if_splits)
  from lr1 lr lcs have g1: "length r1' < length s" by simp
  from pm sk q ps sk1 c g1 obtain v r2' where pv: "parse_value r1' = Some (v, r2')"
    by (cases "parse_value r1'") auto
  have q': "\<not> q \<noteq> ch CHR 0x22" using q by simp
  have c': "\<not> c \<noteq> ch CHR '':''" using c by simp
  have g1': "\<not> \<not> length r1' < length s" using g1 by simp
  from "3.IH"(1) [OF sk q' ps refl sk1 c' g1' pv]
  have lr2: "length r2' < length r1'" .
  from pm sk q ps sk1 c g1 pv obtain c2 r3 where sk2: "skip_ws r2' = c2 # r3"
    by (cases "skip_ws r2'") auto
  then have lr3: "length r3 < length r2'" by (rule skip_ws_Cons_length)
  show ?case
  proof (cases "c2 = ch CHR '',''")
    case True
    from lr3 lr2 g1 have g3: "length r3 < length s" by simp
    with pm sk q ps sk1 c g1 pv sk2 True obtain kvs' where
      pm': "parse_members r3 = Some (kvs', r2)"
      by auto
    from "3.IH"(2) [OF sk q' ps refl sk1 c' g1' pv refl sk2 True g3 pm'] g3
    show ?thesis by simp
  next
    case False
    with pm sk q ps sk1 c g1 pv sk2 have "r2 = r3" by (auto split: if_splits)
    with lr3 lr2 g1 show ?thesis by simp
  qed
qed

lemma parse_elements_unguarded:
  "parse_elements s =
     (case parse_value s of
        None \<Rightarrow> None
      | Some (v, r) \<Rightarrow>
          (case skip_ws r of
             [] \<Rightarrow> None
           | c # r' \<Rightarrow>
               if c = ch CHR '','' then map_option (\<lambda>(vs, r''). (v # vs, r'')) (parse_elements r')
               else if c = ch CHR '']'' then Some ([v], r')
               else None))"
proof (cases "parse_value s")
  case None
  then show ?thesis by (subst parse_elements.simps) simp
next
  case (Some a)
  obtain v r where a: "a = (v, r)" by (cases a)
  with Some have lr: "length r < length s" by (auto dest: parse_rest_shorter(1))
  show ?thesis
  proof (cases "skip_ws r")
    case Nil
    with Some a show ?thesis by (subst parse_elements.simps) simp
  next
    case (Cons c r')
    with lr skip_ws_Cons_length [OF Cons] have "length r' < length s" by simp
    with Some a Cons show ?thesis by (subst parse_elements.simps) simp
  qed
qed

lemma parse_members_unguarded:
  "parse_members s =
     (case skip_ws s of
        [] \<Rightarrow> None
      | q # cs \<Rightarrow>
          if q \<noteq> ch CHR 0x22 then None
          else
            (case parse_string_chars cs of
               None \<Rightarrow> None
             | Some (k, r) \<Rightarrow>
                 (case skip_ws r of
                    [] \<Rightarrow> None
                  | c # r1 \<Rightarrow>
                      if c \<noteq> ch CHR '':'' then None
                      else
                        (case parse_value r1 of
                           None \<Rightarrow> None
                         | Some (v, r2) \<Rightarrow>
                             (case skip_ws r2 of
                                [] \<Rightarrow> None
                              | c' # r3 \<Rightarrow>
                                  if c' = ch CHR '','' then
                                    map_option (\<lambda>(kvs, r4). ((k, v) # kvs, r4)) (parse_members r3)
                                  else if c' = ch CHR ''}'' then Some ([(k, v)], r3)
                                  else None)))))"
proof (cases "skip_ws s")
  case Nil
  then show ?thesis by (subst parse_members.simps) simp
next
  case sk: (Cons q cs)
  show ?thesis
  proof (cases "parse_string_chars cs")
    case None
    with sk show ?thesis by (subst parse_members.simps) simp
  next
    case (Some a)
    obtain k r where a: "a = (k, r)" by (cases a)
    with Some have ps: "parse_string_chars cs = Some (k, r)" by simp
    show ?thesis
    proof (cases "skip_ws r")
      case Nil
      with sk ps show ?thesis by (subst parse_members.simps) simp
    next
      case sk1: (Cons c r1)
      from skip_ws_Cons_length [OF sk] parse_string_chars_length [OF ps]
        skip_ws_Cons_length [OF sk1]
      have g1: "length r1 < length s" by simp
      show ?thesis
      proof (cases "parse_value r1")
        case None
        with sk ps sk1 g1 show ?thesis by (subst parse_members.simps) simp
      next
        case (Some b)
        obtain v r2 where b: "b = (v, r2)" by (cases b)
        with Some have pv: "parse_value r1 = Some (v, r2)" by simp
        show ?thesis
        proof (cases "skip_ws r2")
          case Nil
          with sk ps sk1 g1 pv show ?thesis by (subst parse_members.simps) simp
        next
          case sk2: (Cons c' r3)
          from g1 parse_rest_shorter(1) [OF pv] skip_ws_Cons_length [OF sk2]
          have "length r3 < length s" by simp
          with sk ps sk1 g1 pv sk2 show ?thesis by (subst parse_members.simps) simp
        qed
      qed
    qed
  qed
qed

section \<open>Text validation: the length bounds\<close>

lemma validateText_valid_iff:
  "valid (validateText tx) \<longleftrightarrow> 20 \<le> length (trim tx) \<and> length (trim tx) \<le> 50000"
proof (cases "tx = []")
  case True
  then show ?thesis by (simp add: validateText_def trim_def)
next
  case False
  then show ?thesis by (auto simp: validateText_def Let_def)
qed

text \<open>
  C9 (as the code has it). The validator measures the text after trimming: it accepts
  exactly the texts whose trimmed length is between 20 and 50000 code units. So every
  text of length 19 is rejected, and a text of length 20 is accepted when it neither
  starts nor ends with white space (trimming then leaves it unchanged).
\<close>

theorem validateText_bounds:
  "(valid (validateText tx) \<longleftrightarrow> 20 \<le> length (trim tx) \<and> length (trim tx) \<le> 50000) \<and>
   (length tx = 19 \<longrightarrow> \<not> valid (validateText tx)) \<and>
   (length tx = 20 \<and> \<not> is_js_space (hd tx) \<and> \<not> is_js_space (last tx)
      \<longrightarrow> valid (validateText tx))"
proof (intro conjI impI)
  show "valid (validateText tx) \<longleftrightarrow> 20 \<le> length (trim tx) \<and> length (trim tx) \<le> 50000"
    by (rule validateText_valid_iff)
next
  assume "length tx = 19"
  with length_trim_le [of tx] show "\<not> valid (validateText tx)"
    by (simp add: validateText_valid_iff)
next
  assume h: "length tx = 20 \<and> \<not> is_js_space (hd tx) \<and> \<not> is_js_space (last tx)"
  then have "tx \<noteq> []" by auto
  with h have "trim tx = tx" by (simp add: trim_id)
  with h show "valid (validateText tx)"
    by (simp add: validateText_valid_iff)
qed

theorem validateText_bounds_witness:
  "length (replicate 20 (97::nat)) = 20 \<and> valid (validateText (replicate 20 97)) \<and>
   length (replicate 19 (97::nat)) = 19 \<and> \<not> valid (validateText (replicate 19 97))"
proof -
  have a: "\<not> is_js_space 97"
    by (simp add: is_js_space_def)
  have b: "length (replicate 20 (97::nat)) = 20 \<and> \<not> is_js_space (hd (replicate 20 97)) \<and>
      \<not> is_js_space (last (replicate 20 97))"
    using a by (simp add: last_replicate)
  have c: "length (replicate 19 (97::nat)) = 19"
    by simp
  from validateText_bounds [of "replicate 20 97"] b
  have "valid (validateText (replicate 20 97))" by blast
  moreover from validateText_bounds [of "replicate 19 97"] c
  have "\<not> valid (validateText (replicate 19 97))" by blast
  ultimately show ?thesis by simp
qed

text \<open>
  The claim as stated fails: nineteen letters followed by a space are a text of length 20
  that the validator rejects as too short.
\<close>

theorem validateText_length20_counterexample:
  "length (replicate 19 97 @ [32::nat]) = 20 \<and>
   validateText (replicate 19 97 @ [32]) = \<lparr>valid = False, error = Some TooShort\<rparr>"
proof -
  have a: "\<not> is_js_space 97" "is_js_space 32"
    by (simp_all add: is_js_space_def)
  have "dropWhile is_js_space (replicate 19 97 @ [32]) = replicate 19 97 @ [32]"
    using a by (simp add: dropWhile_eq_self_iff)
  moreover have "dropWhile is_js_space (rev (replicate 19 97 @ [32])) = replicate 19 97"
    using a by (simp add: dropWhile_eq_self_iff)
  ultimately have "trim (replicate 19 97 @ [32]) = replicate 19 97"
    by (simp add: trim_def)
  then show ?thesis
    by (simp add: validateText_def)
qed

section \<open>The cloze renderer rewrites numbered deletions\<close>























section \<open>The list renderer: parent first, then the children in order\<close>

lemma create_children_calls:
  assumes "\<forall>k < length items.
             h (log @ map (\<lambda>i. (i, Some pid)) (take k items)) (items ! k, Some pid) \<noteq> Rejected"
  shows "create_children h log pid items = (Returned (), log @ map (\<lambda>i. (i, Some pid)) items)"
  using assms
proof (induction items arbitrary: log)
  case Nil
  then show ?case by simp
next
  case (Cons item items)
  from Cons.prems have "h (log @ map (\<lambda>i. (i, Some pid)) (take 0 (item # items)))
      ((item # items) ! 0, Some pid) \<noteq> Rejected"
    by blast
  then have first: "h log (item, Some pid) \<noteq> Rejected"
    by simp
  have rest: "\<forall>k < length items.
      h ((log @ [(item, Some pid)]) @ map (\<lambda>i. (i, Some pid)) (take k items))
        (items ! k, Some pid) \<noteq> Rejected"
  proof (intro allI impI)
    fix k
    assume "k < length items"
    then have "Suc k < length (item # items)" by simp
    with Cons.prems have "h (log @ map (\<lambda>i. (i, Some pid)) (take (Suc k) (item # items)))
        ((item # items) ! Suc k, Some pid) \<noteq> Rejected"
      by blast
    then show "h ((log @ [(item, Some pid)]) @ map (\<lambda>i. (i, Some pid)) (take k items))
        (items ! k, Some pid) \<noteq> Rejected"
      by simp
  qed
  from first Cons.IH [OF rest] show ?case
    by (cases "h log (item, Some pid)") (simp_all add: createSingleRemWithMarkdown_def)
qed

text \<open>
  C5. A list card first asks the host for the parent node \<^verbatim>\<open>front + " >>>"\<close>. When
  the host returns no reference, that call is the only one and the card yields nothing.
  When the host returns a parent, and rejects none of the calls that follow, the calls
  are the parent and then one child per element of \<^verbatim>\<open>back\<close>, in the order of
  \<^verbatim>\<open>back\<close>, each with the element as its markup and the parent's id as its parent
  (a \<^verbatim>\<open>back\<close> that is a single string counts as one element).
\<close>

theorem createListCard_calls:
  "(h log (front crd @ ascii '' >>>'', p) = NoRef
      \<longrightarrow> createListCard h log crd p = (Returned None, log @ [(front crd @ ascii '' >>>'', p)])) \<and>
   (h log (front crd @ ascii '' >>>'', p) = Created parentRem \<and>
    items = (case back crd of BackItems xs \<Rightarrow> xs | BackText s \<Rightarrow> [s]) \<and>
    (\<forall>k < length items.
        h (log @ [(front crd @ ascii '' >>>'', p)] @
             map (\<lambda>i. (i, Some (rem_id parentRem))) (take k items))
          (items ! k, Some (rem_id parentRem)) \<noteq> Rejected)
      \<longrightarrow> createListCard h log crd p =
            (Returned (Some parentRem),
             log @ [(front crd @ ascii '' >>>'', p)] @
               map (\<lambda>i. (i, Some (rem_id parentRem))) items))"
proof (intro conjI impI)
  assume "h log (front crd @ ascii '' >>>'', p) = NoRef"
  then show "createListCard h log crd p
      = (Returned None, log @ [(front crd @ ascii '' >>>'', p)])"
    by (simp add: createListCard_def createSingleRemWithMarkdown_def)
next
  let ?log' = "log @ [(front crd @ ascii '' >>>'', p)]"
  assume a: "h log (front crd @ ascii '' >>>'', p) = Created parentRem \<and>
    items = (case back crd of BackItems xs \<Rightarrow> xs | BackText s \<Rightarrow> [s]) \<and>
    (\<forall>k < length items.
        h (log @ [(front crd @ ascii '' >>>'', p)] @
             map (\<lambda>i. (i, Some (rem_id parentRem))) (take k items))
          (items ! k, Some (rem_id parentRem)) \<noteq> Rejected)"
  then have a1: "h log (front crd @ ascii '' >>>'', p) = Created parentRem"
    and a2: "(case back crd of BackItems xs \<Rightarrow> xs | BackText s \<Rightarrow> [s]) = items"
    and a3: "\<forall>k < length items.
        h (log @ [(front crd @ ascii '' >>>'', p)] @
             map (\<lambda>i. (i, Some (rem_id parentRem))) (take k items))
          (items ! k, Some (rem_id parentRem)) \<noteq> Rejected"
    by blast+
  from a3 have "\<forall>k < length items.
        h (?log' @ map (\<lambda>i. (i, Some (rem_id parentRem))) (take k items))
          (items ! k, Some (rem_id parentRem)) \<noteq> Rejected"
    by simp
  then have "create_children h ?log' (rem_id parentRem) items
      = (Returned (), ?log' @ map (\<lambda>i. (i, Some (rem_id parentRem))) items)"
    by (rule create_children_calls)
  with a1 a2 show "createListCard h log crd p =
      (Returned (Some parentRem), log @ [(front crd @ ascii '' >>>'', p)] @
         map (\<lambda>i. (i, Some (rem_id parentRem))) items)"
    by (simp add: createListCard_def createSingleRemWithMarkdown_def)
qed

text \<open>
  The example of the specification: \<^verbatim>\<open>back = ["A", "B", "C"]\<close> and a host that creates
  every node give four calls, the parent and then A, B, C under it; a host that returns
  no reference gives the parent call alone.
\<close>

theorem createListCard_calls_witness:
  "createListCard (\<lambda>l c. Created \<lparr>rem_id = ascii ''p1''\<rparr>) []
      \<lparr>type = TList, front = ascii ''Q'', back = BackItems [ascii ''A'', ascii ''B'', ascii ''C''],
       clozeText = None\<rparr> None
     = (Returned (Some \<lparr>rem_id = ascii ''p1''\<rparr>),
        [(ascii ''Q >>>'', None), (ascii ''A'', Some (ascii ''p1'')),
         (ascii ''B'', Some (ascii ''p1'')), (ascii ''C'', Some (ascii ''p1''))]) \<and>
   createListCard (\<lambda>l c. NoRef) []
      \<lparr>type = TList, front = ascii ''Q'', back = BackItems [ascii ''A'', ascii ''B'', ascii ''C''],
       clozeText = None\<rparr> None
     = (Returned None, [(ascii ''Q >>>'', None)])"
proof -
  let ?crd = "\<lparr>type = TList, front = ascii ''Q'',
               back = BackItems [ascii ''A'', ascii ''B'', ascii ''C''], clozeText = None\<rparr>"
  from createListCard_calls
    [of "\<lambda>l c. Created \<lparr>rem_id = ascii ''p1''\<rparr>" "[]" ?crd None "\<lparr>rem_id = ascii ''p1''\<rparr>"
        "[ascii ''A'', ascii ''B'', ascii ''C'']"]
  have "createListCard (\<lambda>l c. Created \<lparr>rem_id = ascii ''p1''\<rparr>) [] ?crd None
      = (Returned (Some \<lparr>rem_id = ascii ''p1''\<rparr>),
         [] @ [(front ?crd @ ascii '' >>>'', None)] @
           map (\<lambda>i. (i, Some (rem_id \<lparr>rem_id = ascii ''p1''\<rparr>)))
             [ascii ''A'', ascii ''B'', ascii ''C''])"
    by simp
  moreover from createListCard_calls
    [of "\<lambda>l c. NoRef" "[]" ?crd None "\<lparr>rem_id = ascii ''p1''\<rparr>" "[]"]
  have "createListCard (\<lambda>l c. NoRef) [] ?crd None
      = (Returned None, [] @ [(front ?crd @ ascii '' >>>'', None)])"
    by simp
  ultimately show ?thesis
    by (simp add: ascii_simps)
qed

section \<open>Batch creation isolates the failure of a card\<close>

lemma createFlashcards_loop_refs:
  "fst (createFlashcards_loop h p cards acc log)
     = acc @ created_refs (card_outcomes h p log cards)"
proof (induction cards arbitrary: acc log)
  case Nil
  then show ?case by simp
next
  case (Cons crd cards)
  obtain out log' where c: "createSingleCard h log crd p = (out, log')"
    by (cases "createSingleCard h log crd p")
  show ?case
  proof (cases out)
    case (Returned r)
    with c Cons.IH show ?thesis by (cases r) simp_all
  next
    case Threw
    with c Cons.IH show ?thesis by simp
  qed
qed

lemma length_card_outcomes: "length (card_outcomes h p log cards) = length cards"
  by (induction cards arbitrary: log) simp_all

lemma length_created_refs: "length (created_refs os) \<le> length os"
  by (induction os rule: created_refs.induct) simp_all

text \<open>
  C8. \<^verbatim>\<open>createFlashcards\<close> returns for every batch and every host (its result has no
  exception). Every card of the batch is attempted, whatever the cards before it did,
  and the result is the list of the references of the cards whose creation returned
  one, in the order of the batch: a card that throws or yields no reference adds
  nothing, so the result can be shorter than the batch.
\<close>

theorem createFlashcards_isolates_failures:
  "fst (createFlashcards h log cards p) = created_refs (card_outcomes h p log cards) \<and>
   length (card_outcomes h p log cards) = length cards \<and>
   length (fst (createFlashcards h log cards p)) \<le> length cards"
proof -
  have a: "fst (createFlashcards h log cards p) = created_refs (card_outcomes h p log cards)"
    by (simp add: createFlashcards_def createFlashcards_loop_refs)
  moreover have "length (created_refs (card_outcomes h p log cards)) \<le> length cards"
    using length_created_refs [of "card_outcomes h p log cards"]
    by (simp add: length_card_outcomes)
  ultimately show ?thesis
    by (simp add: length_card_outcomes)
qed

text \<open>
  A batch of three cards on a host that rejects the first call, returns no reference for
  the second and creates the third: one reference comes back, and all three calls were
  made.
\<close>

theorem createFlashcards_isolates_failures_witness:
  "createFlashcards
      (\<lambda>l c. if length l = 0 then Rejected else if length l = 1 then NoRef
              else Created \<lparr>rem_id = ascii ''r3''\<rparr>) []
      [\<lparr>type = TBasic, front = ascii ''a'', back = BackText (ascii ''b''), clozeText = None\<rparr>,
       \<lparr>type = TDescriptor, front = ascii ''c'', back = BackText (ascii ''d''), clozeText = None\<rparr>,
       \<lparr>type = TBasicReverse, front = ascii ''e'', back = BackText (ascii ''f''), clozeText = None\<rparr>]
      None
     = ([\<lparr>rem_id = ascii ''r3''\<rparr>],
        [(ascii ''a >> b'', None), (ascii ''c ;; d'', None), (ascii ''e <> f'', None)])"
proof -
  let ?h = "\<lambda>l c. if length (l :: host_call list) = 0 then Rejected
                  else if length l = 1 then NoRef else Created \<lparr>rem_id = ascii ''r3''\<rparr>"
  let ?cards = "[\<lparr>type = TBasic, front = ascii ''a'', back = BackText (ascii ''b''), clozeText = None\<rparr>,
       \<lparr>type = TDescriptor, front = ascii ''c'', back = BackText (ascii ''d''), clozeText = None\<rparr>,
       \<lparr>type = TBasicReverse, front = ascii ''e'', back = BackText (ascii ''f''), clozeText = None\<rparr>]"
  have "fst (createFlashcards ?h [] ?cards None) = [\<lparr>rem_id = ascii ''r3''\<rparr>]"
    using createFlashcards_isolates_failures [of ?h "[]" ?cards None]
    by (simp add: createSingleCard_def createBasicCard_def createDescriptorCard_def
        createSingleRemWithMarkdown_def)
  moreover have "snd (createFlashcards ?h [] ?cards None)
      = [(ascii ''a >> b'', None), (ascii ''c ;; d'', None), (ascii ''e <> f'', None)]"
    by (simp add: createFlashcards_def createSingleCard_def createBasicCard_def
        createDescriptorCard_def createSingleRemWithMarkdown_def back_text_def ascii_simps)
  ultimately show ?thesis
    by (simp add: prod_eq_iff)
qed

section \<open>Facts about the response normalizer\<close>

lemma map_err_Inr: "map_err f xs = Inr ys \<Longrightarrow> list_all2 (\<lambda>x y. f x = Inr y) xs ys"
  by (induction xs arbitrary: ys) (auto split: sum.splits)

lemma map_err_Inl: "map_err f xs = Inl e \<Longrightarrow> \<exists>x \<in> set xs. f x = Inl e"
  by (induction xs) (auto split: sum.splits)

lemma to_string_error: "to_string N v = Inl e \<Longrightarrow> e = TypeError"
proof (induction N v rule: to_string.induct)
  case (5 N xs)
  from "5.prems" have "map_err (\<lambda>x. if x = JNull then Inr [] else to_string N x) xs = Inl e"
    by (simp split: sum.splits)
  then obtain x where "x \<in> set xs" "(if x = JNull then Inr [] else to_string N x) = Inl e"
    by (auto dest: map_err_Inl)
  with "5.IH" show ?case by (auto split: if_splits)
qed (auto split: if_splits)

lemma card_type_name_inj: "card_type_name a = card_type_name b \<longleftrightarrow> a = b"
  by (cases a; cases b) (simp_all add: ascii_simps)

lemma as_CardType_Some:
  "as_CardType v = Some t \<longleftrightarrow> v = Some (JStr (card_type_name t))"
proof
  assume "as_CardType v = Some t"
  then show "v = Some (JStr (card_type_name t))"
    unfolding as_CardType_def by (auto simp: find_Some_iff)
next
  assume v: "v = Some (JStr (card_type_name t))"
  have "List.find (\<lambda>t'. card_type_name t = card_type_name t') validTypes = Some t"
    unfolding card_type_name_inj by (cases t) (simp_all add: validTypes_def)
  with v show "as_CardType v = Some t"
    by (simp add: as_CardType_def)
qed

lemma isValidCard_as_CardType:
  assumes "isValidCard e"
  shows "\<exists>t. as_CardType (get_prop e (ascii ''type'')) = Some t"
proof -
  from assms have "get_prop e (ascii ''type'')
      \<in> set (map (\<lambda>t. Some (JStr (card_type_name t))) validTypes)"
    by (auto simp: isValidCard_def split: if_splits)
  then show ?thesis
    by (auto simp: as_CardType_Some)
qed

lemma map_sum_id_Inr: "map_sum id f x = Inr y \<longleftrightarrow> (\<exists>z. x = Inr z \<and> y = f z)"
  by (cases x) auto

lemma map_sum_id_Inl: "map_sum id f x = Inl e \<longleftrightarrow> x = Inl e"
  by (cases x) auto

lemma str_includes_nonempty: "str_includes s (ascii ''{{'') \<Longrightarrow> s \<noteq> []"
  by (auto simp: ascii_simps)

lemma normalizeCard_valid:
  assumes "isValidCard e" "normalizeCard N e = Inr c"
  shows "get_prop e (ascii ''type'') = Some (JStr (card_type_name (type c)))"
    and "type c = TList \<Longrightarrow> \<exists>xs items. get_prop e (ascii ''back'') = Some (JArr xs) \<and>
           map_err (to_string N) xs = Inr items \<and> back c = BackItems items"
    and "type c \<noteq> TList \<Longrightarrow> \<exists>b. back c = BackText b"
    and "type c = TCloze \<Longrightarrow> \<exists>s. get_prop e (ascii ''clozeText'') = Some (JStr s) \<and>
           str_includes s (ascii ''{{'') \<and> clozeText c = Some s"
    and "type c \<noteq> TCloze \<Longrightarrow> clozeText c = None"
proof -
  let ?T = "get_prop e (ascii ''type'')"
  from assms(2) obtain t where t: "as_CardType ?T = Some t"
    by (cases "as_CardType ?T") (auto simp: normalizeCard_def)
  then have ty: "?T = Some (JStr (card_type_name t))"
    by (simp add: as_CardType_Some)
  have l: "?T = Some (JStr (ascii ''list'')) \<longleftrightarrow> t = TList"
    using card_type_name_inj [of t TList] ty by simp
  have cl: "?T = Some (JStr (ascii ''cloze'')) \<longleftrightarrow> t = TCloze"
    using card_type_name_inj [of t TCloze] ty by simp
  from assms(2) t obtain f b ct where
    c: "c = \<lparr>type = t, front = f, back = b, clozeText = ct\<rparr>"
    and b: "(if ?T = Some (JStr (ascii ''list'')) then
              (case get_prop e (ascii ''back'') of
                 Some (JArr xs) \<Rightarrow> map_sum id BackItems (map_err (to_string N) xs)
               | _ \<Rightarrow> Inl TypeError)
            else map_sum id BackText (to_string N (or_empty N (get_prop e (ascii ''back'')))))
          = Inr b"
    and ct: "(if ?T = Some (JStr (ascii ''cloze'')) \<and> truthy N (get_prop e (ascii ''clozeText''))
            then (case get_prop e (ascii ''clozeText'') of
                    Some v \<Rightarrow> map_sum id Some (to_string N v)
                  | None \<Rightarrow> Inr None)
            else Inr None) = Inr ct"
    by (auto simp: normalizeCard_def split: sum.splits)
  from c ty show "?T = Some (JStr (card_type_name (type c)))"
    by simp
  show "\<exists>xs items. get_prop e (ascii ''back'') = Some (JArr xs) \<and>
           map_err (to_string N) xs = Inr items \<and> back c = BackItems items" if "type c = TList"
    using that c b l
    by (auto simp: map_sum_id_Inr split: option.splits json.splits)
  show "\<exists>b. back c = BackText b" if "type c \<noteq> TList"
    using that c b l by (auto simp: map_sum_id_Inr)
  show "clozeText c = None" if "type c \<noteq> TCloze"
    using that c ct cl by auto
  show "\<exists>s. get_prop e (ascii ''clozeText'') = Some (JStr s) \<and>
           str_includes s (ascii ''{{'') \<and> clozeText c = Some s" if "type c = TCloze"
  proof -
    from that c cl have T: "?T = Some (JStr (ascii ''cloze''))"
      by simp
    with assms(1) obtain s where s: "get_prop e (ascii ''clozeText'') = Some (JStr s)"
      "str_includes s (ascii ''{{'')"
      by (auto simp: isValidCard_def split: if_splits option.splits json.splits)
    then have "s \<noteq> []" by (auto dest: str_includes_nonempty)
    with s T ct c have "clozeText c = Some s"
      by (auto simp: truthy_def or_empty_def)
    with s show ?thesis by simp
  qed
qed

lemma map_err_Inr_set:
  "map_err f xs = Inr ys \<Longrightarrow> \<forall>y \<in> set ys. \<exists>x \<in> set xs. f x = Inr y"
  by (induction xs arbitrary: ys) (auto split: sum.splits)

lemma map_err_filter_Inr:
  assumes "map_err f (filter P xs) = Inr ys"
  shows "\<forall>y \<in> set ys. \<exists>x \<in> set xs. P x \<and> f x = Inr y"
  using map_err_Inr_set [OF assms] by auto

lemma normalizeCard_error:
  assumes "isValidCard e" "normalizeCard N e = Inl err"
  shows "err = TypeError"
proof -
  from assms(1) obtain t where "as_CardType (get_prop e (ascii ''type'')) = Some t"
    by (auto dest: isValidCard_as_CardType)
  with assms(2) show ?thesis
    by (auto simp: normalizeCard_def map_sum_id_Inl
        split: sum.splits if_splits option.splits json.splits
        dest: to_string_error map_err_Inl)
qed

lemma parseAIResponse_try_cases:
  "parseAIResponse_try N r =
     (case JSON_parse (cleanJson (json_candidate r)) of
        None \<Rightarrow> Inl SyntaxError
      | Some (JArr parsed) \<Rightarrow> map_err (normalizeCard N) (filter isValidCard parsed)
      | Some _ \<Rightarrow> Inl FormatError)"
  by (simp add: parseAIResponse_try_def Let_def)

lemma parseAIResponse_try_no_CastError: "parseAIResponse_try N r \<noteq> Inl CastError"
proof
  assume a: "parseAIResponse_try N r = Inl CastError"
  then obtain parsed where
    "map_err (normalizeCard N) (filter isValidCard parsed) = Inl CastError"
    by (auto simp: parseAIResponse_try_cases split: option.splits json.splits)
  from map_err_Inl [OF this]
  obtain e where "e \<in> set (filter isValidCard parsed)" "normalizeCard N e = Inl CastError"
    by blast
  then have "isValidCard e" "normalizeCard N e = Inl CastError"
    by simp_all
  then show False
    by (auto dest: normalizeCard_error)
qed

section \<open>Examples evaluated\<close>

lemmas eval_fence = ascii_simps json_candidate_def match_fence_here_def fence_open_def
  fence_close_def is_js_space_def

lemmas eval_clean = ascii_simps cleanJson_def trim_def is_js_space_def

lemmas eval_parse = ascii_simps JSON_parse_def parse_value.simps parse_elements_unguarded
  parse_members_unguarded skip_ws_def json_ws_def parse_scalar_def parse_number_def
  parse_int_part_def parse_frac_part_def parse_exp_part_def parse_digits_def is_digit_def
  unescape_def hex4_def hex_digit_def

lemmas eval_card = ascii_simps isValidCard_def is_object_def is_string_def is_array_def
  validTypes_def normalizeCard_def as_CardType_def truthy_def or_empty_def

lemma object_payload_parse:
  \<open>JSON_parse (cleanJson (json_candidate (ascii ''{"type":"basic","front":"Q","back":"A"}'')))
   = Some (JObj [(ascii ''type'', JStr (ascii ''basic'')), (ascii ''front'', JStr (ascii ''Q'')),
                 (ascii ''back'', JStr (ascii ''A''))])\<close>
proof -
  have \<open>json_candidate (ascii ''{"type":"basic","front":"Q","back":"A"}'')
      = ascii ''{"type":"basic","front":"Q","back":"A"}''\<close>
    by (simp add: eval_fence)
  moreover have \<open>cleanJson (ascii ''{"type":"basic","front":"Q","back":"A"}'')
      = ascii ''{"type":"basic","front":"Q","back":"A"}''\<close>
    by (simp add: eval_clean)
  moreover have \<open>JSON_parse (ascii ''{"type":"basic","front":"Q","back":"A"}'')
      = Some (JObj [(ascii ''type'', JStr (ascii ''basic'')), (ascii ''front'', JStr (ascii ''Q'')),
                    (ascii ''back'', JStr (ascii ''A''))])\<close>
    by (simp add: eval_parse)
  ultimately show ?thesis by simp
qed

lemma truncated_payload_parse:
  \<open>JSON_parse (cleanJson (json_candidate (ascii ''[{"type":"basic","front":"Q"''))) = None\<close>
proof -
  have \<open>json_candidate (ascii ''[{"type":"basic","front":"Q"'')
      = ascii ''[{"type":"basic","front":"Q"''\<close>
    by (simp add: eval_fence)
  moreover have \<open>cleanJson (ascii ''[{"type":"basic","front":"Q"'')
      = ascii ''[{"type":"basic","front":"Q"''\<close>
    by (simp add: eval_clean)
  moreover have \<open>JSON_parse (ascii ''[{"type":"basic","front":"Q"'') = None\<close>
    by (simp add: eval_parse)
  ultimately show ?thesis by simp
qed

section \<open>The normalizer never throws\<close>

text \<open>
  C1. \<^verbatim>\<open>parseAIResponse\<close> is a total function from strings to card sequences: every
  function it is built from terminates, and every exception of its \<^verbatim>\<open>try\<close> block is a
  value that the \<^verbatim>\<open>catch\<close> turns into the empty sequence. An exception of any kind
  gives the empty sequence; so does a payload that \<^verbatim>\<open>JSON.parse\<close> rejects, and a
  payload whose top-level value is not an array, a single object included. Without an
  exception the result is the sequence the \<^verbatim>\<open>try\<close> block computed.
\<close>

theorem parseAIResponse_never_throws:
  "(\<forall>e. parseAIResponse_try N r = Inl e \<longrightarrow> parseAIResponse N r = []) \<and>
   (JSON_parse (cleanJson (json_candidate r)) = None \<longrightarrow> parseAIResponse N r = []) \<and>
   (\<forall>v. JSON_parse (cleanJson (json_candidate r)) = Some v \<and> (\<forall>xs. v \<noteq> JArr xs)
      \<longrightarrow> parseAIResponse N r = []) \<and>
   (\<forall>cards. parseAIResponse_try N r = Inr cards \<longrightarrow> parseAIResponse N r = cards) \<and>
   parseAIResponse_try N r \<noteq> Inl CastError"
proof (intro conjI allI impI)
  fix e
  assume "parseAIResponse_try N r = Inl e"
  then show "parseAIResponse N r = []"
    by (simp add: parseAIResponse_def)
next
  assume "JSON_parse (cleanJson (json_candidate r)) = None"
  then show "parseAIResponse N r = []"
    by (simp add: parseAIResponse_def parseAIResponse_try_cases)
next
  fix v
  assume "JSON_parse (cleanJson (json_candidate r)) = Some v \<and> (\<forall>xs. v \<noteq> JArr xs)"
  then show "parseAIResponse N r = []"
    by (cases v) (simp_all add: parseAIResponse_def parseAIResponse_try_cases)
next
  fix cards
  assume "parseAIResponse_try N r = Inr cards"
  then show "parseAIResponse N r = cards"
    by (simp add: parseAIResponse_def)
next
  show "parseAIResponse_try N r \<noteq> Inl CastError"
    by (rule parseAIResponse_try_no_CastError)
qed

text \<open>
  A payload that is a single card object, not an array of cards, and a payload cut off in
  the middle both give the empty sequence.
\<close>

theorem parseAIResponse_never_throws_witness:
  \<open>parseAIResponse literal_numbers (ascii ''{"type":"basic","front":"Q","back":"A"}'') = [] \<and>
   parseAIResponse literal_numbers (ascii ''[{"type":"basic","front":"Q"'') = []\<close>
proof -
  from parseAIResponse_never_throws
    [of literal_numbers \<open>ascii ''{"type":"basic","front":"Q","back":"A"}''\<close>]
  have \<open>parseAIResponse literal_numbers (ascii ''{"type":"basic","front":"Q","back":"A"}'') = []\<close>
    by (simp add: object_payload_parse)
  moreover from parseAIResponse_never_throws
    [of literal_numbers \<open>ascii ''[{"type":"basic","front":"Q"''\<close>]
  have \<open>parseAIResponse literal_numbers (ascii ''[{"type":"basic","front":"Q"'') = []\<close>
    by (simp add: truncated_payload_parse)
  ultimately show ?thesis by simp
qed

section \<open>The trailing-comma repair\<close>

lemma fenced_payload_parse:
  \<open>JSON_parse (cleanJson (json_candidate
      (ascii ''```json'' @ [10] @ ascii ''[{"type":"basic","front":"Q","back":"A"},]'' @ [10] @
       ascii ''```'')))
   = Some (JArr [JObj [(ascii ''type'', JStr (ascii ''basic'')), (ascii ''front'', JStr (ascii ''Q'')),
                       (ascii ''back'', JStr (ascii ''A''))]])\<close>
proof -
  have \<open>json_candidate (ascii ''```json'' @ [10] @
          ascii ''[{"type":"basic","front":"Q","back":"A"},]'' @ [10] @ ascii ''```'')
      = ascii ''[{"type":"basic","front":"Q","back":"A"},]''\<close>
    by (simp add: eval_fence)
  moreover have \<open>cleanJson (ascii ''[{"type":"basic","front":"Q","back":"A"},]'')
      = ascii ''[{"type":"basic","front":"Q","back":"A"}]''\<close>
    by (simp add: eval_clean)
  moreover have \<open>JSON_parse (ascii ''[{"type":"basic","front":"Q","back":"A"}]'')
      = Some (JArr [JObj [(ascii ''type'', JStr (ascii ''basic'')),
                          (ascii ''front'', JStr (ascii ''Q'')),
                          (ascii ''back'', JStr (ascii ''A''))]])\<close>
    by (simp add: eval_parse)
  ultimately show ?thesis by simp
qed

lemma fenced_payload_cards:
  \<open>parseAIResponse N
     (ascii ''```json'' @ [10] @ ascii ''[{"type":"basic","front":"Q","back":"A"},]'' @ [10] @
      ascii ''```'')
     = [\<lparr>type = TBasic, front = ascii ''Q'', back = BackText (ascii ''A''), clozeText = None\<rparr>]\<close>
proof -
  let ?payload = \<open>ascii ''```json'' @ [10] @
    ascii ''[{"type":"basic","front":"Q","back":"A"},]'' @ [10] @ ascii ''```''\<close>
  let ?obj = "JObj [(ascii ''type'', JStr (ascii ''basic'')), (ascii ''front'', JStr (ascii ''Q'')),
                    (ascii ''back'', JStr (ascii ''A''))]"
  have "parseAIResponse_try N ?payload = map_err (normalizeCard N) (filter isValidCard [?obj])"
    by (simp only: parseAIResponse_try_cases fenced_payload_parse option.case json.case)
  also have "\<dots> = Inr [\<lparr>type = TBasic, front = ascii ''Q'', back = BackText (ascii ''A''),
                          clozeText = None\<rparr>]"
    by (simp add: eval_card)
  finally show ?thesis
    by (simp only: parseAIResponse_def sum.case)
qed

lemma string_comma_payload_parse:
  \<open>JSON_parse (cleanJson (json_candidate
      (ascii ''[{"type":"basic","front":"a,]","back":"A"}]'')))
   = Some (JArr [JObj [(ascii ''type'', JStr (ascii ''basic'')), (ascii ''front'', JStr (ascii ''a]'')),
                       (ascii ''back'', JStr (ascii ''A''))]])\<close>
proof -
  have \<open>json_candidate (ascii ''[{"type":"basic","front":"a,]","back":"A"}]'')
      = ascii ''[{"type":"basic","front":"a,]","back":"A"}]''\<close>
    by (simp add: eval_fence)
  moreover have \<open>cleanJson (ascii ''[{"type":"basic","front":"a,]","back":"A"}]'')
      = ascii ''[{"type":"basic","front":"a]","back":"A"}]''\<close>
    by (simp add: eval_clean)
  moreover have \<open>JSON_parse (ascii ''[{"type":"basic","front":"a]","back":"A"}]'')
      = Some (JArr [JObj [(ascii ''type'', JStr (ascii ''basic'')),
                          (ascii ''front'', JStr (ascii ''a]'')),
                          (ascii ''back'', JStr (ascii ''A''))]])\<close>
    by (simp add: eval_parse)
  ultimately show ?thesis by simp
qed

lemma string_comma_payload_cards:
  \<open>parseAIResponse N (ascii ''[{"type":"basic","front":"a,]","back":"A"}]'')
     = [\<lparr>type = TBasic, front = ascii ''a]'', back = BackText (ascii ''A''), clozeText = None\<rparr>]\<close>
proof -
  let ?payload = \<open>ascii ''[{"type":"basic","front":"a,]","back":"A"}]''\<close>
  let ?obj = "JObj [(ascii ''type'', JStr (ascii ''basic'')), (ascii ''front'', JStr (ascii ''a]'')),
                    (ascii ''back'', JStr (ascii ''A''))]"
  have "parseAIResponse_try N ?payload = map_err (normalizeCard N) (filter isValidCard [?obj])"
    by (simp only: parseAIResponse_try_cases string_comma_payload_parse option.case json.case)
  also have "\<dots> = Inr [\<lparr>type = TBasic, front = ascii ''a]'', back = BackText (ascii ''A''),
                          clozeText = None\<rparr>]"
    by (simp add: eval_card)
  finally show ?thesis
    by (simp only: parseAIResponse_def sum.case)
qed

text \<open>
  C6. The two replacements of the repair run over the text of the payload, string
  literals included. The payload \<^verbatim>\<open>[{"type":"basic","front":"a,]","back":"A"}]\<close> is
  JSON as it stands, with the front \<^verbatim>\<open>a,]\<close>, and has no trailing comma; the repair
  removes the comma inside the string literal, and the card returned has the front
  \<^verbatim>\<open>a]\<close>. The fenced payload of the specification, with its trailing comma, parses to
  the one basic card with front Q and back A.
\<close>

theorem cleanJson_rewrites_string_literal:
  \<open>JSON_parse (ascii ''[{"type":"basic","front":"a,]","back":"A"}]'')
     = Some (JArr [JObj [(ascii ''type'', JStr (ascii ''basic'')),
                         (ascii ''front'', JStr (ascii ''a,]'')),
                         (ascii ''back'', JStr (ascii ''A''))]]) \<and>
   cleanJson (ascii ''[{"type":"basic","front":"a,]","back":"A"}]'')
     = ascii ''[{"type":"basic","front":"a]","back":"A"}]'' \<and>
   parseAIResponse N (ascii ''[{"type":"basic","front":"a,]","back":"A"}]'')
     = [\<lparr>type = TBasic, front = ascii ''a]'', back = BackText (ascii ''A''), clozeText = None\<rparr>] \<and>
   parseAIResponse N
     (ascii ''```json'' @ [10] @ ascii ''[{"type":"basic","front":"Q","back":"A"},]'' @ [10] @
      ascii ''```'')
     = [\<lparr>type = TBasic, front = ascii ''Q'', back = BackText (ascii ''A''), clozeText = None\<rparr>]\<close>
proof (intro conjI)
  show \<open>JSON_parse (ascii ''[{"type":"basic","front":"a,]","back":"A"}]'')
     = Some (JArr [JObj [(ascii ''type'', JStr (ascii ''basic'')),
                         (ascii ''front'', JStr (ascii ''a,]'')),
                         (ascii ''back'', JStr (ascii ''A''))]])\<close>
    by (simp add: eval_parse)
next
  show \<open>cleanJson (ascii ''[{"type":"basic","front":"a,]","back":"A"}]'')
     = ascii ''[{"type":"basic","front":"a]","back":"A"}]''\<close>
    by (simp add: eval_clean)
next
  show \<open>parseAIResponse N (ascii ''[{"type":"basic","front":"a,]","back":"A"}]'')
     = [\<lparr>type = TBasic, front = ascii ''a]'', back = BackText (ascii ''A''), clozeText = None\<rparr>]\<close>
    by (rule string_comma_payload_cards)
next
  show \<open>parseAIResponse N
     (ascii ''```json'' @ [10] @ ascii ''[{"type":"basic","front":"Q","back":"A"},]'' @ [10] @
      ascii ''```'')
     = [\<lparr>type = TBasic, front = ascii ''Q'', back = BackText (ascii ''A''), clozeText = None\<rparr>]\<close>
    by (rule fenced_payload_cards)
qed

section \<open>The validity predicate and the shape of the cards\<close>

lemma is_string_iff: "is_string v \<longleftrightarrow> (\<exists>s. v = Some (JStr s))"
  by (auto simp: is_string_def split: option.splits json.splits)

lemma is_array_iff: "is_array v \<longleftrightarrow> (\<exists>xs. v = Some (JArr xs))"
  by (auto simp: is_array_def split: option.splits json.splits)

lemma valid_type_iff:
  "v \<in> set (map (\<lambda>t. Some (JStr (card_type_name t))) validTypes)
     \<longleftrightarrow> (\<exists>t. v = Some (JStr (card_type_name t)))"
proof -
  have "set validTypes = UNIV"
  proof -
    have "t \<in> set validTypes" for t
      by (cases t) (simp_all add: validTypes_def)
    then show ?thesis by blast
  qed
  then show ?thesis by auto
qed

lemma valid_type_image_iff:
  "v \<in> (\<lambda>t. Some (JStr (card_type_name t))) ` set validTypes
     \<longleftrightarrow> (\<exists>t. v = Some (JStr (card_type_name t)))"
  using valid_type_iff [of v] by simp

lemma isValidCard_iff_spec: "isValidCard e \<longleftrightarrow> valid_by_spec e"
proof (cases "\<exists>t. get_prop e (ascii ''type'') = Some (JStr (card_type_name t))")
  case False
  then show ?thesis
    by (auto simp: isValidCard_def valid_by_spec_def valid_type_image_iff)
next
  case True
  then obtain t where t: "get_prop e (ascii ''type'') = Some (JStr (card_type_name t))"
    by blast
  have u: "get_prop e (ascii ''type'') = Some (JStr (card_type_name t')) \<longleftrightarrow> t' = t" for t'
    using t card_type_name_inj [of t' t] by auto
  have c: "get_prop e (ascii ''type'') = Some (JStr (ascii ''cloze'')) \<longleftrightarrow> t = TCloze"
    using u [of TCloze] by auto
  have l: "get_prop e (ascii ''type'') = Some (JStr (ascii ''list'')) \<longleftrightarrow> t = TList"
    using u [of TList] by auto
  have "isValidCard e \<longleftrightarrow>
      is_object e \<and>
      (if t = TCloze then
         \<exists>s. get_prop e (ascii ''clozeText'') = Some (JStr s) \<and> str_includes s (ascii ''{{'')
       else if t = TList then
         is_string (get_prop e (ascii ''front'')) \<and> is_array (get_prop e (ascii ''back''))
       else is_string (get_prop e (ascii ''front'')) \<and> is_string (get_prop e (ascii ''back'')))"
    using True
    by (auto simp: isValidCard_def valid_type_image_iff c l split: option.splits json.splits)
  also have "\<dots> \<longleftrightarrow> valid_by_spec e"
    unfolding valid_by_spec_def u
    by (auto simp: is_string_iff is_array_iff str_includes_sublist)
  finally show ?thesis .
qed

text \<open>
  C2. The validity predicate of the code accepts an element exactly when the predicate of
  the specification holds. When the payload parses to an array, the result of
  \<^verbatim>\<open>parseAIResponse\<close> is the normalization of the elements that satisfy the predicate,
  one card per such element and in their order, every other element being dropped; or
  it is empty, when the normalization of an accepted element throws a TypeError.
\<close>

theorem isValidCard_meets_spec:
  "(isValidCard e \<longleftrightarrow> valid_by_spec e) \<and>
   (JSON_parse (cleanJson (json_candidate r)) = Some (JArr elems)
      \<longrightarrow> list_all2 (\<lambda>x c. normalizeCard N x = Inr c)
            (filter valid_by_spec elems) (parseAIResponse N r)
          \<or> (parseAIResponse_try N r = Inl TypeError \<and> parseAIResponse N r = []))"
proof (intro conjI impI)
  show "isValidCard e \<longleftrightarrow> valid_by_spec e"
    by (rule isValidCard_iff_spec)
next
  assume a: "JSON_parse (cleanJson (json_candidate r)) = Some (JArr elems)"
  have f: "filter valid_by_spec elems = filter isValidCard elems"
    by (simp add: isValidCard_iff_spec [abs_def])
  from a have t: "parseAIResponse_try N r
      = map_err (normalizeCard N) (filter isValidCard elems)"
    by (simp add: parseAIResponse_try_cases)
  show "list_all2 (\<lambda>x c. normalizeCard N x = Inr c)
            (filter valid_by_spec elems) (parseAIResponse N r)
          \<or> (parseAIResponse_try N r = Inl TypeError \<and> parseAIResponse N r = [])"
  proof (cases "parseAIResponse_try N r")
    case (Inl err)
    with t obtain x where "x \<in> set (filter isValidCard elems)" "normalizeCard N x = Inl err"
      using map_err_Inl [of "normalizeCard N" "filter isValidCard elems" err] by auto
    then have "err = TypeError"
      by (auto dest: normalizeCard_error)
    with Inl show ?thesis
      by (simp add: parseAIResponse_def)
  next
    case (Inr cards)
    with t have "map_err (normalizeCard N) (filter isValidCard elems) = Inr cards"
      by simp
    then have "list_all2 (\<lambda>x c. normalizeCard N x = Inr c) (filter isValidCard elems) cards"
      by (rule map_err_Inr)
    with Inr f show ?thesis
      by (simp add: parseAIResponse_def)
  qed
qed

lemma normalizeCard_shape:
  assumes "isValidCard e" "normalizeCard N e = Inr c"
  shows "card_shape c"
proof -
  have "case back c of BackItems xs \<Rightarrow> type c = TList | BackText s \<Rightarrow> type c \<noteq> TList"
    using normalizeCard_valid(2,3) [OF assms]
    by (cases "type c = TList") auto
  moreover have "case clozeText c of
        Some t \<Rightarrow> type c = TCloze \<and> str_includes t (ascii ''{{'')
      | None \<Rightarrow> type c \<noteq> TCloze"
    using normalizeCard_valid(4,5) [OF assms]
    by (cases "type c = TCloze") auto
  ultimately show ?thesis
    by (simp add: card_shape_def)
qed

text \<open>
  C10. Every card that \<^verbatim>\<open>parseAIResponse\<close> returns has the shape above. A
  \<^verbatim>\<open>clozeText\<close> of an accepted element whose type is not \<^verbatim>\<open>cloze\<close> is left out of
  the card.
\<close>

theorem parseAIResponse_card_shape:
  "(\<forall>c \<in> set (parseAIResponse N r). card_shape c) \<and>
   (isValidCard e \<and> normalizeCard N e = Inr c' \<and>
    get_prop e (ascii ''type'') \<noteq> Some (JStr (ascii ''cloze''))
      \<longrightarrow> clozeText c' = None)"
proof (intro conjI ballI impI)
  fix c
  assume c: "c \<in> set (parseAIResponse N r)"
  then obtain cards where t: "parseAIResponse_try N r = Inr cards" and "c \<in> set cards"
    by (cases "parseAIResponse_try N r") (auto simp: parseAIResponse_def)
  moreover from t obtain elems where
    "map_err (normalizeCard N) (filter isValidCard elems) = Inr cards"
    by (auto simp: parseAIResponse_try_cases split: option.splits json.splits)
  ultimately obtain x where "isValidCard x" "normalizeCard N x = Inr c"
    using map_err_filter_Inr [of "normalizeCard N" isValidCard elems cards] by blast
  then show "card_shape c"
    by (rule normalizeCard_shape)
next
  assume a: "isValidCard e \<and> normalizeCard N e = Inr c' \<and>
    get_prop e (ascii ''type'') \<noteq> Some (JStr (ascii ''cloze''))"
  then have "get_prop e (ascii ''type'') = Some (JStr (card_type_name (type c')))"
    by (auto dest: normalizeCard_valid(1))
  with a have "type c' \<noteq> TCloze"
    by auto
  with a show "clozeText c' = None"
    by (auto dest: normalizeCard_valid(5))
qed

text \<open>
  The examples of the specification: a cloze entry without a \<^verbatim>\<open>{{\<close> marker and a list
  entry whose \<^verbatim>\<open>back\<close> is a string are dropped, the basic entry after them is kept.
\<close>

lemma mixed_payload_parse:
  \<open>JSON_parse (cleanJson (json_candidate (ascii
      ''[{"type":"cloze","clozeText":"no marker"},{"type":"list","front":"L","back":"x"},{"type":"basic","front":"Q","back":"A"}]'')))
   = Some (JArr
       [JObj [(ascii ''type'', JStr (ascii ''cloze'')), (ascii ''clozeText'', JStr (ascii ''no marker''))],
        JObj [(ascii ''type'', JStr (ascii ''list'')), (ascii ''front'', JStr (ascii ''L'')),
              (ascii ''back'', JStr (ascii ''x''))],
        JObj [(ascii ''type'', JStr (ascii ''basic'')), (ascii ''front'', JStr (ascii ''Q'')),
              (ascii ''back'', JStr (ascii ''A''))]])\<close>
proof -
  let ?p = \<open>ascii
      ''[{"type":"cloze","clozeText":"no marker"},{"type":"list","front":"L","back":"x"},{"type":"basic","front":"Q","back":"A"}]''\<close>
  have "json_candidate ?p = ?p"
    by (simp add: eval_fence)
  moreover have "cleanJson ?p = ?p"
    by (simp add: eval_clean)
  moreover have "JSON_parse ?p = Some (JArr
       [JObj [(ascii ''type'', JStr (ascii ''cloze'')), (ascii ''clozeText'', JStr (ascii ''no marker''))],
        JObj [(ascii ''type'', JStr (ascii ''list'')), (ascii ''front'', JStr (ascii ''L'')),
              (ascii ''back'', JStr (ascii ''x''))],
        JObj [(ascii ''type'', JStr (ascii ''basic'')), (ascii ''front'', JStr (ascii ''Q'')),
              (ascii ''back'', JStr (ascii ''A''))]])"
    by (simp add: eval_parse)
  ultimately show ?thesis by simp
qed

theorem isValidCard_meets_spec_witness:
  \<open>parseAIResponse literal_numbers (ascii
      ''[{"type":"cloze","clozeText":"no marker"},{"type":"list","front":"L","back":"x"},{"type":"basic","front":"Q","back":"A"}]'')
   = [\<lparr>type = TBasic, front = ascii ''Q'', back = BackText (ascii ''A''), clozeText = None\<rparr>] \<and>
   \<not> valid_by_spec
       (JObj [(ascii ''type'', JStr (ascii ''cloze'')), (ascii ''clozeText'', JStr (ascii ''no marker''))]) \<and>
   \<not> valid_by_spec
       (JObj [(ascii ''type'', JStr (ascii ''list'')), (ascii ''front'', JStr (ascii ''L'')),
              (ascii ''back'', JStr (ascii ''x''))]) \<and>
   valid_by_spec
       (JObj [(ascii ''type'', JStr (ascii ''basic'')), (ascii ''front'', JStr (ascii ''Q'')),
              (ascii ''back'', JStr (ascii ''A''))])\<close>
proof -
  let ?p = \<open>ascii
      ''[{"type":"cloze","clozeText":"no marker"},{"type":"list","front":"L","back":"x"},{"type":"basic","front":"Q","back":"A"}]''\<close>
  let ?e1 = "JObj [(ascii ''type'', JStr (ascii ''cloze'')),
                   (ascii ''clozeText'', JStr (ascii ''no marker''))]"
  let ?e2 = "JObj [(ascii ''type'', JStr (ascii ''list'')), (ascii ''front'', JStr (ascii ''L'')),
                   (ascii ''back'', JStr (ascii ''x''))]"
  let ?e3 = "JObj [(ascii ''type'', JStr (ascii ''basic'')), (ascii ''front'', JStr (ascii ''Q'')),
                   (ascii ''back'', JStr (ascii ''A''))]"
  let ?c3 = "\<lparr>type = TBasic, front = ascii ''Q'', back = BackText (ascii ''A''), clozeText = None\<rparr>"
  have i: "\<not> isValidCard ?e1" "\<not> isValidCard ?e2" "isValidCard ?e3"
    by (simp_all add: eval_card)
  have v: "\<not> valid_by_spec ?e1" "\<not> valid_by_spec ?e2" "valid_by_spec ?e3"
    using i isValidCard_meets_spec [of ?e1] isValidCard_meets_spec [of ?e2]
      isValidCard_meets_spec [of ?e3]
    by blast+
  have n: "normalizeCard literal_numbers ?e3 = Inr ?c3"
    by (simp add: eval_card)
  have "parseAIResponse_try literal_numbers ?p
      = map_err (normalizeCard literal_numbers) (filter isValidCard [?e1, ?e2, ?e3])"
    by (simp only: parseAIResponse_try_cases mixed_payload_parse option.case json.case)
  with i n have t: "parseAIResponse_try literal_numbers ?p \<noteq> Inl TypeError"
    by simp
  from isValidCard_meets_spec [of ?e3 ?p "[?e1, ?e2, ?e3]" literal_numbers] mixed_payload_parse
  have "list_all2 (\<lambda>x c. normalizeCard literal_numbers x = Inr c)
          (filter valid_by_spec [?e1, ?e2, ?e3]) (parseAIResponse literal_numbers ?p)
        \<or> (parseAIResponse_try literal_numbers ?p = Inl TypeError \<and>
            parseAIResponse literal_numbers ?p = [])"
    by blast
  with t v have "list_all2 (\<lambda>x c. normalizeCard literal_numbers x = Inr c)
          [?e3] (parseAIResponse literal_numbers ?p)"
    by simp
  with n have "parseAIResponse literal_numbers ?p = [?c3]"
    by (auto simp: list_all2_Cons1)
  with v show ?thesis by simp
qed

text \<open>
  A basic entry that carries a \<^verbatim>\<open>clozeText\<close>, a cloze entry and a list entry: the
  \<^verbatim>\<open>clozeText\<close> of the basic entry is left out, and the three cards have the shape.
\<close>

lemma shapes_payload_parse:
  \<open>JSON_parse (cleanJson (json_candidate (ascii
      ''[{"type":"basic","front":"Q","back":"A","clozeText":"{{x}}"},{"type":"cloze","clozeText":"a {{b}}"},{"type":"list","front":"L","back":["x","y"]}]'')))
   = Some (JArr
       [JObj [(ascii ''type'', JStr (ascii ''basic'')), (ascii ''front'', JStr (ascii ''Q'')),
              (ascii ''back'', JStr (ascii ''A'')), (ascii ''clozeText'', JStr (ascii ''{{x}}''))],
        JObj [(ascii ''type'', JStr (ascii ''cloze'')), (ascii ''clozeText'', JStr (ascii ''a {{b}}''))],
        JObj [(ascii ''type'', JStr (ascii ''list'')), (ascii ''front'', JStr (ascii ''L'')),
              (ascii ''back'', JArr [JStr (ascii ''x''), JStr (ascii ''y'')])]])\<close>
proof -
  let ?p = \<open>ascii
      ''[{"type":"basic","front":"Q","back":"A","clozeText":"{{x}}"},{"type":"cloze","clozeText":"a {{b}}"},{"type":"list","front":"L","back":["x","y"]}]''\<close>
  have "json_candidate ?p = ?p"
    by (simp add: eval_fence)
  moreover have "cleanJson ?p = ?p"
    by (simp add: eval_clean)
  moreover have "JSON_parse ?p = Some (JArr
       [JObj [(ascii ''type'', JStr (ascii ''basic'')), (ascii ''front'', JStr (ascii ''Q'')),
              (ascii ''back'', JStr (ascii ''A'')), (ascii ''clozeText'', JStr (ascii ''{{x}}''))],
        JObj [(ascii ''type'', JStr (ascii ''cloze'')), (ascii ''clozeText'', JStr (ascii ''a {{b}}''))],
        JObj [(ascii ''type'', JStr (ascii ''list'')), (ascii ''front'', JStr (ascii ''L'')),
              (ascii ''back'', JArr [JStr (ascii ''x''), JStr (ascii ''y'')])]])"
    by (simp add: eval_parse)
  ultimately show ?thesis by simp
qed

theorem parseAIResponse_card_shape_witness:
  \<open>parseAIResponse literal_numbers (ascii
      ''[{"type":"basic","front":"Q","back":"A","clozeText":"{{x}}"},{"type":"cloze","clozeText":"a {{b}}"},{"type":"list","front":"L","back":["x","y"]}]'')
   = [\<lparr>type = TBasic, front = ascii ''Q'', back = BackText (ascii ''A''), clozeText = None\<rparr>,
      \<lparr>type = TCloze, front = [], back = BackText [], clozeText = Some (ascii ''a {{b}}'')\<rparr>,
      \<lparr>type = TList, front = ascii ''L'', back = BackItems [ascii ''x'', ascii ''y''],
       clozeText = None\<rparr>] \<and>
   card_shape \<lparr>type = TBasic, front = ascii ''Q'', back = BackText (ascii ''A''), clozeText = None\<rparr> \<and>
   card_shape \<lparr>type = TCloze, front = [], back = BackText [], clozeText = Some (ascii ''a {{b}}'')\<rparr> \<and>
   card_shape \<lparr>type = TList, front = ascii ''L'', back = BackItems [ascii ''x'', ascii ''y''],
               clozeText = None\<rparr>\<close>
proof -
  let ?p = \<open>ascii
      ''[{"type":"basic","front":"Q","back":"A","clozeText":"{{x}}"},{"type":"cloze","clozeText":"a {{b}}"},{"type":"list","front":"L","back":["x","y"]}]''\<close>
  let ?e1 = "JObj [(ascii ''type'', JStr (ascii ''basic'')), (ascii ''front'', JStr (ascii ''Q'')),
              (ascii ''back'', JStr (ascii ''A'')), (ascii ''clozeText'', JStr (ascii ''{{x}}''))]"
  let ?e2 = "JObj [(ascii ''type'', JStr (ascii ''cloze'')),
              (ascii ''clozeText'', JStr (ascii ''a {{b}}''))]"
  let ?e3 = "JObj [(ascii ''type'', JStr (ascii ''list'')), (ascii ''front'', JStr (ascii ''L'')),
              (ascii ''back'', JArr [JStr (ascii ''x''), JStr (ascii ''y'')])]"
  let ?c1 = "\<lparr>type = TBasic, front = ascii ''Q'', back = BackText (ascii ''A''), clozeText = None\<rparr>"
  let ?c2 = "\<lparr>type = TCloze, front = [], back = BackText [], clozeText = Some (ascii ''a {{b}}'')\<rparr>"
  let ?c3 = "\<lparr>type = TList, front = ascii ''L'', back = BackItems [ascii ''x'', ascii ''y''],
              clozeText = None\<rparr>"
  have "parseAIResponse_try literal_numbers ?p
      = map_err (normalizeCard literal_numbers) (filter isValidCard [?e1, ?e2, ?e3])"
    by (simp only: parseAIResponse_try_cases shapes_payload_parse option.case json.case)
  also have "\<dots> = Inr [?c1, ?c2, ?c3]"
    by (simp add: eval_card)
  finally have r: "parseAIResponse literal_numbers ?p = [?c1, ?c2, ?c3]"
    by (simp only: parseAIResponse_def sum.case)
  from parseAIResponse_card_shape [of literal_numbers ?p ?e1 ?c1]
  have "\<forall>c \<in> set (parseAIResponse literal_numbers ?p). card_shape c"
    by blast
  with r have "card_shape ?c1" "card_shape ?c2" "card_shape ?c3"
    by simp_all
  with r show ?thesis by simp
qed

section \<open>The prompt names the requested types\<close>


















section \<open>Serializing the cards and parsing them again\<close>

lemma hex_digit_hex_char: "n < 16 \<Longrightarrow> hex_digit (hex_char n) = Some n"
  by (auto simp: hex_digit_def hex_char_def)

lemma hex_sum:
  assumes "c < (65536::nat)"
  shows "((c div 4096 mod 16 * 16 + c div 256 mod 16) * 16 + c div 16 mod 16) * 16 + c mod 16 = c"
proof -
  have e1: "c div 256 = c div 16 div 16" and e2: "c div 4096 = c div 16 div 16 div 16"
    by (simp_all add: div_mult2_eq [symmetric])
  have a: "c div 4096 mod 16 = c div 4096"
    using assms by (simp add: less_mult_imp_div_less)
  have b: "c div 256 = c div 4096 * 16 + c div 256 mod 16"
    unfolding e1 e2 by simp
  have c: "c div 16 = c div 256 * 16 + c div 16 mod 16"
    unfolding e1 by simp
  have d: "c = c div 16 * 16 + c mod 16"
    by simp
  show ?thesis
    unfolding a using b c d by simp
qed

lemma hex4_unicode_escape:
  assumes "c < 65536"
  shows "hex4 (hex_char (c div 4096 mod 16)) (hex_char (c div 256 mod 16))
           (hex_char (c div 16 mod 16)) (hex_char (c mod 16)) = Some c"
proof -
  have a: "c div 4096 mod 16 = c div 4096"
    using assms by (simp add: less_mult_imp_div_less)
  have "c div 4096 < 16"
    using assms by (simp add: less_mult_imp_div_less)
  then show ?thesis
    using hex_sum [OF assms] by (simp add: hex4_def hex_digit_hex_char a)
qed

lemma parse_unicode_escape:
  assumes "c < 65536"
  shows "parse_string_chars (unicode_escape c @ rest)
       = map_option (\<lambda>(s, r'). (c # s, r')) (parse_string_chars rest)"
  using hex4_unicode_escape [OF assms] by (simp add: unicode_escape_def)

lemma parse_plain_unit:
  "32 \<le> c \<Longrightarrow> c \<noteq> 34 \<Longrightarrow> c \<noteq> 92
     \<Longrightarrow> parse_string_chars (c # rest) = map_option (\<lambda>(s, r'). (c # s, r')) (parse_string_chars rest)"
  by simp

lemma parse_short_escape:
  "unescape e = Some u \<Longrightarrow> e \<noteq> ch CHR ''u''
     \<Longrightarrow> parse_string_chars (ch CHR 0x5C # e # rest)
       = map_option (\<lambda>(s, r'). (u # s, r')) (parse_string_chars rest)"
  by simp

lemma quote_chars_short:
  "quote_chars (8 # cs) = [ch CHR 0x5C, ch CHR ''b''] @ quote_chars cs"
  "quote_chars (9 # cs) = [ch CHR 0x5C, ch CHR ''t''] @ quote_chars cs"
  "quote_chars (10 # cs) = [ch CHR 0x5C, ch CHR ''n''] @ quote_chars cs"
  "quote_chars (12 # cs) = [ch CHR 0x5C, ch CHR ''f''] @ quote_chars cs"
  "quote_chars (13 # cs) = [ch CHR 0x5C, ch CHR ''r''] @ quote_chars cs"
  "quote_chars (34 # cs) = [ch CHR 0x5C, ch CHR 0x22] @ quote_chars cs"
  "quote_chars (92 # cs) = [ch CHR 0x5C, ch CHR 0x5C] @ quote_chars cs"
  by simp_all

lemma quote_chars_ctrl:
  "c < 32 \<Longrightarrow> c \<notin> {8, 9, 10, 12, 13} \<Longrightarrow> quote_chars (c # cs) = unicode_escape c @ quote_chars cs"
  by auto

lemma quote_chars_plain:
  "32 \<le> c \<Longrightarrow> c \<noteq> 34 \<Longrightarrow> c \<noteq> 92 \<Longrightarrow> \<not> is_high_surrogate c \<Longrightarrow> \<not> is_low_surrogate c
     \<Longrightarrow> quote_chars (c # cs) = c # quote_chars cs"
  by auto

lemma quote_chars_low:
  "is_low_surrogate c \<Longrightarrow> quote_chars (c # cs) = unicode_escape c @ quote_chars cs"
  by (auto simp: is_low_surrogate_def is_high_surrogate_def)

lemma quote_chars_high_pair:
  "is_high_surrogate c \<Longrightarrow> is_low_surrogate d
     \<Longrightarrow> quote_chars (c # d # ds) = c # d # quote_chars ds"
  by (auto simp: is_high_surrogate_def)

lemma quote_chars_high_lone:
  "is_high_surrogate c \<Longrightarrow> cs = [] \<or> \<not> is_low_surrogate (hd cs)
     \<Longrightarrow> quote_chars (c # cs) = unicode_escape c @ quote_chars cs"
  by (cases cs) (auto simp: is_high_surrogate_def)

lemma parse_quote_chars:
  "parse_string_chars (quote_chars s @ 34 # rest) = Some (s, rest)"
proof (induction "length s" arbitrary: s rule: less_induct)
  case less
  show ?case
  proof (cases s)
    case Nil
    then show ?thesis by simp
  next
    case (Cons c cs)
    have IH: "parse_string_chars (quote_chars cs @ 34 # rest) = Some (cs, rest)"
      using less [of cs] Cons by simp
    show ?thesis
    proof (cases "c \<in> {8, 9, 10, 12, 13, 34, 92}")
      case True
      then consider "c = 8" | "c = 9" | "c = 10" | "c = 12" | "c = 13" | "c = 34" | "c = 92"
        by blast
      then show ?thesis
        by cases (simp_all only: Cons quote_chars_short, simp_all add: IH unescape_def)
    next
      case special: False
      show ?thesis
      proof (cases "c < 32")
        case True
        with special have "quote_chars (c # cs) = unicode_escape c @ quote_chars cs"
          by (intro quote_chars_ctrl) auto
        moreover from True have "c < 65536" by simp
        ultimately show ?thesis
          by (simp only: Cons append_assoc parse_unicode_escape IH) simp
      next
        case ge: False
        with special have plain: "32 \<le> c" "c \<noteq> 34" "c \<noteq> 92" by auto
        show ?thesis
        proof (cases "is_high_surrogate c")
          case high: True
          then have c16: "c < 65536" by (simp add: is_high_surrogate_def)
          show ?thesis
          proof (cases "cs = [] \<or> \<not> is_low_surrogate (hd cs)")
            case True
            with high have "quote_chars (c # cs) = unicode_escape c @ quote_chars cs"
              by (rule quote_chars_high_lone)
            with c16 show ?thesis
              by (simp only: Cons append_assoc parse_unicode_escape IH) simp
          next
            case False
            then obtain d ds where cs: "cs = d # ds" and d: "is_low_surrogate d"
              by (cases cs) auto
            from d have dp: "32 \<le> d" "d \<noteq> 34" "d \<noteq> 92"
              by (auto simp: is_low_surrogate_def)
            have IH2: "parse_string_chars (quote_chars ds @ 34 # rest) = Some (ds, rest)"
              using less [of ds] Cons cs by simp
            from high d have "quote_chars (c # d # ds) = c # d # quote_chars ds"
              by (rule quote_chars_high_pair)
            then show ?thesis
              using plain dp IH2
              by (simp only: Cons cs append_Cons parse_plain_unit) simp
          qed
        next
          case nh: False
          show ?thesis
          proof (cases "is_low_surrogate c")
            case True
            then have "c < 65536" by (simp add: is_low_surrogate_def)
            moreover from True have "quote_chars (c # cs) = unicode_escape c @ quote_chars cs"
              by (rule quote_chars_low)
            ultimately show ?thesis
              by (simp only: Cons append_assoc parse_unicode_escape IH) simp
          next
            case False
            with plain nh have "quote_chars (c # cs) = c # quote_chars cs"
              by (intro quote_chars_plain)
            then show ?thesis
              using plain IH
              by (simp only: Cons append_Cons parse_plain_unit) simp
          qed
        qed
      qed
    qed
  qed
qed

lemma parse_value_quote_json:
  "parse_value (quote_json s @ rest) = Some (JStr s, rest)"
proof -
  have "skip_ws (quote_json s @ rest) = 34 # quote_chars s @ 34 # rest"
    by (simp add: quote_json_def skip_ws_def json_ws_def)
  then show ?thesis
    by (subst parse_value.simps)
      (simp add: parse_scalar_def ascii_simps parse_quote_chars)
qed

lemma join_Cons: "ys \<noteq> [] \<Longrightarrow> join sep (y # ys) = y @ sep @ join sep ys"
  by (cases ys) simp_all

lemma parse_elements_join:
  assumes "xs \<noteq> []"
    and "\<And>x rest. x \<in> set xs \<Longrightarrow> parse_value (enc x @ rest) = Some (dec x, rest)"
  shows "parse_elements (join [44] (map enc xs) @ 93 # rest) = Some (map dec xs, rest)"
  using assms
proof (induction xs rule: list_nonempty_induct)
  case (single x)
  then have "parse_value (enc x @ 93 # rest) = Some (dec x, 93 # rest)"
    by simp
  then show ?case
    by (subst parse_elements_unguarded) (simp add: skip_ws_def json_ws_def)
next
  case (cons x xs)
  from cons.hyps have j: "join [44] (map enc (x # xs)) @ 93 # rest
      = enc x @ 44 # join [44] (map enc xs) @ 93 # rest"
    by (simp add: join_Cons)
  have "parse_value (enc x @ 44 # join [44] (map enc xs) @ 93 # rest)
      = Some (dec x, 44 # join [44] (map enc xs) @ 93 # rest)"
    using cons.prems by simp
  moreover have "parse_elements (join [44] (map enc xs) @ 93 # rest) = Some (map dec xs, rest)"
    using cons.IH cons.prems by simp
  ultimately show ?case
    unfolding j
    by (subst parse_elements_unguarded) (simp add: skip_ws_def json_ws_def)
qed

lemma parse_value_array:
  assumes "\<And>x rest. x \<in> set xs \<Longrightarrow> parse_value (enc x @ rest) = Some (dec x, rest)"
    and "\<And>x. x \<in> set xs \<Longrightarrow> \<exists>q r. enc x = q # r \<and> \<not> json_ws q \<and> q \<noteq> 93"
  shows "parse_value (91 # join [44] (map enc xs) @ 93 # rest) = Some (JArr (map dec xs), rest)"
proof (cases xs)
  case Nil
  then show ?thesis
    by (subst parse_value.simps) (simp add: skip_ws_def json_ws_def)
next
  case (Cons x0 xs0)
  then have "x0 \<in> set xs" by simp
  from assms(2) [OF this] obtain q r where q: "enc x0 = q # r" "\<not> json_ws q" "q \<noteq> 93"
    by blast
  let ?body = "join [44] (map enc xs) @ 93 # rest"
  have "join [44] (map enc xs) = enc x0 @ (if xs0 = [] then [] else 44 # join [44] (map enc xs0))"
    using Cons by (cases xs0) simp_all
  with q obtain r' where b: "?body = q # r'"
    by simp
  have e: "parse_elements ?body = Some (map dec xs, rest)"
    using Cons assms(1) by (intro parse_elements_join) simp_all
  show ?thesis
    using q e unfolding b
    by (subst parse_value.simps) (simp add: skip_ws_def json_ws_def)
qed

lemma parse_value_string_array:
  "parse_value (91 # join [44] (map quote_json xs) @ 93 # rest) = Some (JArr (map JStr xs), rest)"
proof (rule parse_value_array)
  show "parse_value (quote_json x @ rest) = Some (JStr x, rest)" for x rest
    by (rule parse_value_quote_json)
  show "\<exists>q r. quote_json x = q # r \<and> \<not> json_ws q \<and> q \<noteq> 93" for x
    by (simp add: quote_json_def json_ws_def)
qed

lemma parse_value_card: "parse_value (stringify_card c @ rest) = Some (card_json c, rest)"
proof -
  have "parse_value (stringify_card c @ rest) =
      map_option (\<lambda>(kvs, r). (JObj kvs, r)) (parse_members (tl (stringify_card c @ rest)))"
    by (subst parse_value.simps)
      (simp add: stringify_card_def ascii_simps skip_ws_def json_ws_def)
  also have "\<dots> = Some (card_json c, rest)"
    by (cases "back c"; cases "clozeText c")
      (simp_all add: stringify_card_def card_json_def ascii_simps skip_ws_def json_ws_def
        parse_members_unguarded parse_value_quote_json parse_value_string_array)
  finally show ?thesis .
qed

lemma parse_JSON_stringify:
  "JSON_parse (JSON_stringify cards) = Some (JArr (map card_json cards))"
proof -
  have "parse_value (91 # join [44] (map stringify_card cards) @ 93 # [])
      = Some (JArr (map card_json cards), [])"
  proof (rule parse_value_array)
    show "parse_value (stringify_card x @ rest) = Some (card_json x, rest)" for x rest
      by (rule parse_value_card)
    show "\<exists>q r. stringify_card x = q # r \<and> \<not> json_ws q \<and> q \<noteq> 93" for x
      by (simp add: stringify_card_def ascii_simps json_ws_def)
  qed
  then show ?thesis
    by (simp add: JSON_parse_def JSON_stringify_def ascii_simps skip_ws_def)
qed

lemma get_prop_card_json:
  "get_prop (card_json c) (ascii ''type'') = Some (JStr (card_type_name (type c)))"
  "get_prop (card_json c) (ascii ''front'') = Some (JStr (front c))"
  "get_prop (card_json c) (ascii ''back'')
     = Some (case back c of BackText s \<Rightarrow> JStr s | BackItems xs \<Rightarrow> JArr (map JStr xs))"
  "get_prop (card_json c) (ascii ''clozeText'') = map_option JStr (clozeText c)"
  by (cases "clozeText c"; simp add: card_json_def ascii_simps)+

lemma map_err_to_string_JStr: "map_err (to_string N) (map JStr xs) = Inr xs"
  by (induction xs) simp_all

lemma card_type_name_cases:
  "card_type_name t = ascii ''cloze'' \<longleftrightarrow> t = TCloze"
  "card_type_name t = ascii ''list'' \<longleftrightarrow> t = TList"
  using card_type_name_inj [of t TCloze] card_type_name_inj [of t TList] by simp_all

lemma isValidCard_card_json:
  assumes "card_shape c"
  shows "isValidCard (card_json c)"
proof -
  have "is_object (card_json c)"
    by (simp add: card_json_def is_object_def)
  moreover have "if type c = TCloze then
          \<exists>s. get_prop (card_json c) (ascii ''clozeText'') = Some (JStr s) \<and> sublist (ascii ''{{'') s
        else if type c = TList then
          (\<exists>f. get_prop (card_json c) (ascii ''front'') = Some (JStr f)) \<and>
          (\<exists>xs. get_prop (card_json c) (ascii ''back'') = Some (JArr xs))
        else
          (\<exists>f. get_prop (card_json c) (ascii ''front'') = Some (JStr f)) \<and>
          (\<exists>b. get_prop (card_json c) (ascii ''back'') = Some (JStr b))"
    using assms
    by (auto simp: get_prop_card_json card_shape_def str_includes_sublist
        split: back_value.splits option.splits)
  ultimately have "valid_by_spec (card_json c)"
    unfolding valid_by_spec_def
    using get_prop_card_json(1) [of c] by blast
  then show ?thesis
    by (simp add: isValidCard_iff_spec)
qed

lemma normalizeCard_card_json:
  assumes "card_shape c"
  shows "normalizeCard N (card_json c) = Inr c"
proof -
  have t: "as_CardType (Some (JStr (card_type_name (type c)))) = Some (type c)"
    by (simp add: as_CardType_Some)
  have f: "to_string N (or_empty N (Some (JStr (front c)))) = Inr (front c)"
    by (simp add: or_empty_def truthy_def)
  have ne: "s \<noteq> []" if "clozeText c = Some s" for s
    using that assms by (auto simp: card_shape_def dest: str_includes_nonempty)
  show ?thesis
    using assms
    unfolding normalizeCard_def
    by (simp only: get_prop_card_json t f option.case sum.case)
      (auto simp: card_shape_def card_type_name_cases or_empty_def truthy_def
        map_err_to_string_JStr dest: ne
        split: back_value.splits option.splits)
qed

lemma map_err_normalize_card_json:
  assumes "\<forall>c \<in> set cards. card_shape c"
  shows "map_err (normalizeCard N) (filter isValidCard (map card_json cards)) = Inr cards"
  using assms
  by (induction cards) (simp_all add: isValidCard_card_json normalizeCard_card_json)

lemma parseAIResponse_stringify:
  assumes "\<forall>c \<in> set cards. card_shape c"
    and "match_fence (JSON_stringify cards) = None"
    and "cleanJson (JSON_stringify cards) = JSON_stringify cards"
  shows "parseAIResponse N (JSON_stringify cards) = cards"
proof -
  from assms(2) have "json_candidate (JSON_stringify cards) = JSON_stringify cards"
    by (simp add: json_candidate_def)
  with assms(3) have "JSON_parse (cleanJson (json_candidate (JSON_stringify cards)))
      = Some (JArr (map card_json cards))"
    by (simp add: parse_JSON_stringify)
  then have "parseAIResponse_try N (JSON_stringify cards) = Inr cards"
    by (simp add: parseAIResponse_try_cases map_err_normalize_card_json [OF assms(1)])
  then show ?thesis
    by (simp add: parseAIResponse_def)
qed

lemma parseAIResponse_shapes:
  assumes "c \<in> set (parseAIResponse N r)"
  shows "card_shape c"
proof -
  from assms obtain cards where t: "parseAIResponse_try N r = Inr cards" and c: "c \<in> set cards"
    by (cases "parseAIResponse_try N r") (auto simp: parseAIResponse_def)
  from t obtain elems where
    "map_err (normalizeCard N) (filter isValidCard elems) = Inr cards"
    by (auto simp: parseAIResponse_try_cases split: option.splits json.splits)
  with c obtain x where "isValidCard x" "normalizeCard N x = Inr c"
    using map_err_filter_Inr [of "normalizeCard N" isValidCard elems cards] by blast
  then show ?thesis
    by (rule normalizeCard_shape)
qed

text \<open>
  C3 (as the code has it). A sequence that \<^verbatim>\<open>parseAIResponse\<close> returned is reproduced
  from its JSON text when that text holds no \<^verbatim>\<open>```json\<close> fence that the normalizer
  would take for the payload and the trailing-comma repair leaves it unchanged.
\<close>

theorem parseAIResponse_idempotent:
  "cards = parseAIResponse N r \<and>
   match_fence (JSON_stringify cards) = None \<and>
   cleanJson (JSON_stringify cards) = JSON_stringify cards
     \<longrightarrow> parseAIResponse N (JSON_stringify cards) = cards"
proof
  assume a: "cards = parseAIResponse N r \<and>
    match_fence (JSON_stringify cards) = None \<and>
    cleanJson (JSON_stringify cards) = JSON_stringify cards"
  then have c: "cards = parseAIResponse N r"
    and f: "match_fence (JSON_stringify cards) = None"
    and cl: "cleanJson (JSON_stringify cards) = JSON_stringify cards"
    by blast+
  from c have sh: "\<forall>c \<in> set cards. card_shape c"
    by (auto dest: parseAIResponse_shapes)
  show "parseAIResponse N (JSON_stringify cards) = cards"
    by (rule parseAIResponse_stringify [OF sh f cl])
qed

lemmas eval_stringify = ascii_simps JSON_stringify_def stringify_card_def quote_json_def
  is_high_surrogate_def is_low_surrogate_def

text \<open>The card of the fenced example is reproduced from its JSON text.\<close>

theorem parseAIResponse_idempotent_witness:
  \<open>parseAIResponse literal_numbers
     (JSON_stringify (parseAIResponse literal_numbers
        (ascii ''```json'' @ [10] @ ascii ''[{"type":"basic","front":"Q","back":"A"},]'' @ [10] @
         ascii ''```'')))
   = [\<lparr>type = TBasic, front = ascii ''Q'', back = BackText (ascii ''A''), clozeText = None\<rparr>]\<close>
proof -
  let ?r = \<open>ascii ''```json'' @ [10] @ ascii ''[{"type":"basic","front":"Q","back":"A"},]'' @ [10] @
         ascii ''```''\<close>
  let ?cards = "[\<lparr>type = TBasic, front = ascii ''Q'', back = BackText (ascii ''A''),
                  clozeText = None\<rparr>]"
  have r: "parseAIResponse literal_numbers ?r = ?cards"
    by (rule fenced_payload_cards)
  have s: \<open>JSON_stringify ?cards = ascii ''[{"type":"basic","front":"Q","back":"A"}]''\<close>
    by (simp add: eval_stringify)
  have "match_fence (JSON_stringify ?cards) = None"
    unfolding s by (simp add: eval_fence)
  moreover have "cleanJson (JSON_stringify ?cards) = JSON_stringify ?cards"
    unfolding s by (simp add: eval_clean)
  ultimately have "parseAIResponse literal_numbers (JSON_stringify ?cards) = ?cards"
    using parseAIResponse_idempotent [of ?cards literal_numbers ?r] r by simp
  with r show ?thesis by simp
qed

text \<open>
  The claim as stated fails: a card whose front is a fenced block comes out of a payload
  that writes the first backquote as an escape, and its JSON text, where the fence
  stands unescaped, is taken for a response with an empty fenced payload.
\<close>

theorem parseAIResponse_idempotent_counterexample:
  \<open>parseAIResponse literal_numbers
     (ascii ''[{"type":"basic","front":"'' @ [92] @ ascii ''u0060``json```","back":"A"}]'')
   = [\<lparr>type = TBasic, front = ascii ''```json```'', back = BackText (ascii ''A''),
       clozeText = None\<rparr>] \<and>
   parseAIResponse literal_numbers
     (JSON_stringify [\<lparr>type = TBasic, front = ascii ''```json```'', back = BackText (ascii ''A''),
                       clozeText = None\<rparr>])
   = []\<close>
proof -
  let ?r = \<open>ascii ''[{"type":"basic","front":"'' @ [92] @ ascii ''u0060``json```","back":"A"}]''\<close>
  let ?e = "JObj [(ascii ''type'', JStr (ascii ''basic'')),
                  (ascii ''front'', JStr (ascii ''```json```'')),
                  (ascii ''back'', JStr (ascii ''A''))]"
  let ?c = "\<lparr>type = TBasic, front = ascii ''```json```'', back = BackText (ascii ''A''),
             clozeText = None\<rparr>"
  have "json_candidate ?r = ?r"
    by (simp add: eval_fence)
  moreover have "cleanJson ?r = ?r"
    by (simp add: eval_clean)
  moreover have "JSON_parse ?r = Some (JArr [?e])"
    by (simp add: eval_parse)
  ultimately have "parseAIResponse_try literal_numbers ?r
      = map_err (normalizeCard literal_numbers) (filter isValidCard [?e])"
    by (simp only: parseAIResponse_try_cases option.case json.case)
  also have "\<dots> = Inr [?c]"
    by (simp add: eval_card)
  finally have first: "parseAIResponse literal_numbers ?r = [?c]"
    by (simp only: parseAIResponse_def sum.case)
  have s: \<open>JSON_stringify [?c] = ascii ''[{"type":"basic","front":"```json```","back":"A"}]''\<close>
    by (simp add: eval_stringify)
  have "json_candidate (JSON_stringify [?c]) = []"
    unfolding s by (simp add: eval_fence)
  moreover have "cleanJson [] = []"
    by (simp add: eval_clean)
  moreover have "JSON_parse [] = None"
    by (simp add: eval_parse)
  ultimately have "parseAIResponse_try literal_numbers (JSON_stringify [?c]) = Inl SyntaxError"
    by (simp only: parseAIResponse_try_cases option.case)
  then have "parseAIResponse literal_numbers (JSON_stringify [?c]) = []"
    by (simp only: parseAIResponse_def sum.case)
  with first show ?thesis by simp
qed

end
